theory Spec2Isabelle
  imports Main "HOL-Library.Word"
begin

unbundle bit_operations_syntax

section \<open>Machine types of \<^verbatim>\<open>main.cpp\<close>\<close>

text \<open>
  \<^verbatim>\<open>uint32_t\<close>, \<^verbatim>\<open>unsigned int\<close> and \<^verbatim>\<open>FT_UInt\<close> are 32-bit words read by \<open>uint\<close>;
  \<^verbatim>\<open>int\<close> and \<^verbatim>\<open>FT_Int\<close> are 32-bit words read by \<open>sint\<close>; \<^verbatim>\<open>FT_Pos\<close>, \<^verbatim>\<open>FT_ULong\<close>,
  \<^verbatim>\<open>uint64_t\<close> and \<^verbatim>\<open>int64_t\<close> are 64-bit words (LP64). \<^verbatim>\<open>size_t\<close> counters that only
  count elements of a container are \<open>nat\<close>.
\<close>

type_synonym u32 = "32 word"
type_synonym u64 = "64 word"

section \<open>Command line\<close>

text \<open>
  A \<^verbatim>\<open>char\<close> read as a number (\<^verbatim>\<open>ch - '0'\<close>, \<^verbatim>\<open>ch < '0'\<close>): plain \<^verbatim>\<open>char\<close> is signed on
  the platforms the tool is built for, so bytes from 128 on are negative.
\<close>

definition char_val :: "char \<Rightarrow> int" where
  "char_val ch = (let n = of_char ch :: int in if n < 128 then n else n - 256)"

text \<open>
  \<^verbatim>\<open>ParseInt<T>\<close> (lines 55-71). The guard of the loop is the conjunction
  \<^verbatim>\<open>ch < '0' && ch > '9'\<close>, as written. \<^verbatim>\<open>T\<close> is \<^verbatim>\<open>int\<close> or \<^verbatim>\<open>uint32_t\<close>: a 32-bit word in
  both cases, with \<^verbatim>\<open>i *= 10; i += ch - '0'\<close> wrapping.
\<close>

definition ParseInt_step :: "'a::len word option \<Rightarrow> char \<Rightarrow> 'a word option" where
  "ParseInt_step acc ch =
     (case acc of
        None \<Rightarrow> None
      | Some i \<Rightarrow>
          if char_val ch < char_val CHR ''0'' \<and> char_val ch > char_val CHR ''9'' then None
          else Some (i * 10 + word_of_int (char_val ch - char_val CHR ''0'')))"

definition ParseInt :: "string option \<Rightarrow> 'a::len word option" where
  "ParseInt str0 =
     (case str0 of
        None \<Rightarrow> None
      | Some str \<Rightarrow> foldl ParseInt_step (Some 0) str)"

text \<open>
  \<^verbatim>\<open>ParseFloat<double>\<close> (lines 73-105). The function accumulates three \<^verbatim>\<open>uint64_t\<close>
  values and returns \<^verbatim>\<open>(T)num + (T)denom / (T)div\<close>; the model returns the three
  accumulators (\<open>denom = 0\<close>, \<open>div = 1\<close> when the string has no fraction), and leaves the
  arithmetic on \<^verbatim>\<open>double\<close> to the consumer.
\<close>

definition is_digit :: "char \<Rightarrow> bool" where
  "is_digit ch = (\<not> (char_val ch < char_val CHR ''0'' \<or> char_val ch > char_val CHR ''9''))"

definition digit_acc :: "u64 \<Rightarrow> char \<Rightarrow> u64" where
  "digit_acc n ch = n * 10 + word_of_int (char_val ch - char_val CHR ''0'')"

type_synonym parsed_float = "u64 \<times> u64 \<times> u64"

fun ParseFloat_frac :: "u64 \<Rightarrow> u64 \<Rightarrow> u64 \<Rightarrow> string \<Rightarrow> parsed_float option" where
  "ParseFloat_frac num denom dv [] = Some (num, denom, dv)"
| "ParseFloat_frac num denom dv (ch # rest) =
     (if \<not> is_digit ch then None
      else ParseFloat_frac num (digit_acc denom ch) (dv * 10) rest)"

fun ParseFloat_int :: "u64 \<Rightarrow> string \<Rightarrow> parsed_float option" where
  "ParseFloat_int num [] = Some (num, 0, 1)"
| "ParseFloat_int num (ch # rest) =
     (if is_digit ch then ParseFloat_int (digit_acc num ch) rest
      else if ch \<noteq> CHR ''.'' then None
      else ParseFloat_frac num 0 1 rest)"

definition ParseFloat :: "string option \<Rightarrow> parsed_float option" where
  "ParseFloat str0 = (case str0 of None \<Rightarrow> None | Some str \<Rightarrow> ParseFloat_int 0 str)"

text \<open>
  Every diagnostic of the program; each one ends the run with status \<open>-1\<close>. The names of
  the requested axes that the font does not have are printed in the iteration order of an
  \<^verbatim>\<open>unordered_map\<close>, which is not specified: the diagnostic carries their set. The last
  constructor is no diagnostic: it marks a run that reaches an operation the language
  leaves undefined (a \<^verbatim>\<open>float\<close> too large for the \<^verbatim>\<open>int\<close> it is converted to).
\<close>

datatype error =
    FT_Error int
  | Expected_font
  | Expected_out
  | Expected_size
  | Expected_range
  | Invalid_range
  | Expected_axis
  | Unknown_flag string
  | Font_and_out_must_be_set
  | Font_has_no_axes
  | Axis_out_of_bounds string
  | Axes_do_not_exist "string set"
  | Font_has_no_charmap
  | Unsupported_pixel_mode nat
  | Unknown_pixel_mode nat
  | Failed_to_write_PNG int
  | Failed_to_write_map string
  | Undefined_behaviour

text \<open>The local variables that the flag loop of \<^verbatim>\<open>main\<close> fills (lines 125-130).\<close>

record config =
  fontPath :: "string option"
  outDir :: "string option"
  desiredSize :: u32
  cpRanges :: "(u32 \<times> u32) list"
  axes :: "(string \<times> parsed_float) list"
  mono :: bool

definition initial_config :: config where
  "initial_config =
     \<lparr>fontPath = None, outDir = None, desiredSize = 16, cpRanges = [], axes = [], mono = False\<rparr>"

text \<open>\<^verbatim>\<open>ArgIter::Next\<close> on the remaining arguments: the next one, if any, and the rest.\<close>

fun Next :: "string list \<Rightarrow> string option \<times> string list" where
  "Next [] = (None, [])"
| "Next (a # as) = (Some a, as)"

text \<open>\<^verbatim>\<open>unordered_map::emplace\<close>: an existing key keeps its value.\<close>

definition emplace :: "'k \<Rightarrow> 'v \<Rightarrow> ('k \<times> 'v) list \<Rightarrow> ('k \<times> 'v) list" where
  "emplace k v m = (if k \<in> fst ` set m then m else m @ [(k, v)])"

text \<open>The flag loop (lines 132-179), one flag with its operands per step.\<close>

function parse_args :: "config \<Rightarrow> string list \<Rightarrow> error + config" where
  "parse_args c args =
     (case Next args of
        (None, _) \<Rightarrow> Inr c
      | (Some flag, args1) \<Rightarrow>
          if flag = ''--font'' then
            (case Next args1 of
               (None, _) \<Rightarrow> Inl Expected_font
             | (Some p, args2) \<Rightarrow> parse_args (c\<lparr>fontPath := Some p\<rparr>) args2)
          else if flag = ''--out'' then
            (case Next args1 of
               (None, _) \<Rightarrow> Inl Expected_out
             | (Some p, args2) \<Rightarrow> parse_args (c\<lparr>outDir := Some p\<rparr>) args2)
          else if flag = ''--size'' then
            (case Next args1 of (a, args2) \<Rightarrow>
               (case (ParseInt a :: u32 option) of
                  None \<Rightarrow> Inl Expected_size
                | Some sz \<Rightarrow> parse_args (c\<lparr>desiredSize := sz\<rparr>) args2))
          else if flag = ''--range'' then
            (case Next args1 of (a, args2) \<Rightarrow>
               (case Next args2 of (b, args3) \<Rightarrow>
                  (case (ParseInt a :: u32 option, ParseInt b :: u32 option) of
                     (Some first, Some lst) \<Rightarrow>
                       if first \<ge> lst then Inl Invalid_range
                       else parse_args (c\<lparr>cpRanges := cpRanges c @ [(first, lst)]\<rparr>) args3
                   | _ \<Rightarrow> Inl Expected_range)))
          else if flag = ''--axis'' then
            (case Next args1 of (name, args2) \<Rightarrow>
               (case Next args2 of (b, args3) \<Rightarrow>
                  (case (name, ParseFloat b) of
                     (Some nm, Some v) \<Rightarrow> parse_args (c\<lparr>axes := emplace nm v (axes c)\<rparr>) args3
                   | _ \<Rightarrow> Inl Expected_axis)))
          else if flag = ''--mono'' then parse_args (c\<lparr>mono := True\<rparr>) args1
          else Inl (Unknown_flag flag))"
  by pat_completeness auto
termination
proof -
  have shorter: "length y \<le> length args \<and> (x \<noteq> None \<longrightarrow> length y < length args)"
    if "(x, y) = Next args" for x y and args :: "string list"
    using that by (cases args) auto
  show ?thesis
    by (relation "measure (\<lambda>(c, args). length args)") (auto dest!: shorter)
qed

section \<open>The rasterizer\<close>

text \<open>
  FreeType is not part of the repository: the face is a parameter of the model. Each
  field is the FreeType call of the same name on the loaded and sized face; a call that
  returns an \<^verbatim>\<open>FT_Error\<close> gives the error code first (\<open>0\<close> is \<^verbatim>\<open>FT_Err_Ok\<close>).
  A glyph slot holds the fields of \<^verbatim>\<open>face->glyph\<close> that the program reads.
\<close>

record GlyphSlot =
  format_is_bitmap :: bool
  bitmap_width :: u32
  bitmap_rows :: u32
  bitmap_left :: u32
  bitmap_top :: u32
  advance_x :: u64
  pixel_mode :: nat

record Face =
  FT_Get_First_Char :: "u64 \<times> u32"
  FT_Get_Next_Char :: "u64 \<Rightarrow> u64 \<times> u32"
  FT_Get_Char_Index :: "u64 \<Rightarrow> u32"
  FT_Load_Glyph :: "u32 \<Rightarrow> int \<times> GlyphSlot"
  FT_Render_Glyph :: "GlyphSlot \<Rightarrow> bool \<Rightarrow> int \<times> GlyphSlot"
  metrics_ascender :: u64
  metrics_descender :: u64
  metrics_height :: u64

section \<open>Range resolution (lines 235-253)\<close>

text \<open>
  The \<^verbatim>\<open>while\<close> loop over \<^verbatim>\<open>FT_Get_Next_Char\<close>. It ends when the rasterizer returns
  character code 0; nothing in the program bounds it, so it is a partial function.
  The pair pushed to \<^verbatim>\<open>cpRanges\<close> narrows \<^verbatim>\<open>FT_ULong\<close> to \<^verbatim>\<open>uint32_t\<close>.
\<close>

partial_function (option) discover ::
  "Face \<Rightarrow> u64 \<Rightarrow> u64 \<Rightarrow> (u32 \<times> u32) list \<Rightarrow> (u32 \<times> u32) list option" where
  "discover face firstChar lastChar ranges =
     (let nextChar = fst (FT_Get_Next_Char face lastChar) in
      if nextChar = 0 then Some (ranges @ [(ucast firstChar, ucast lastChar)])
      else if nextChar \<noteq> lastChar + 1 then
        discover face nextChar nextChar (ranges @ [(ucast firstChar, ucast lastChar)])
      else discover face firstChar nextChar ranges)"

declare discover.simps [code]

definition resolve_ranges :: "Face \<Rightarrow> (u32 \<times> u32) list \<Rightarrow> (error + (u32 \<times> u32) list) option" where
  "resolve_ranges face ranges =
     (if ranges = [] then
        (let firstChar = fst (FT_Get_First_Char face) in
         if firstChar = 0 then Some (Inl Font_has_no_charmap)
         else map_option Inr (discover face firstChar firstChar []))
      else Some (Inr ranges))"

section \<open>Glyph collection (lines 255-289)\<close>

record GlyphData =
  rectIndex :: "nat option"
  glyphIndex :: u32
  width :: u32
  height :: u32
  leftBearing :: u32
  topBearing :: u32
  advance :: u64

text \<open>
  \<open>rectIndex\<close> is a \<^verbatim>\<open>size_t\<close> in the source, with \<^verbatim>\<open>(size_t)-1\<close> for a glyph that has no
  rectangle: \<open>None\<close> here.
\<close>

text \<open>
  Modelled from the spec: \<^verbatim>\<open>stbrp_rect\<close> is declared in \<^verbatim>\<open>stb_rect_pack.h\<close>, which is not
  among the sources; the spec gives PackRect as \<^verbatim>\<open>{width, height, x, y}\<close>. The
  fields \<open>rect_w\<close>, \<open>rect_h\<close>, \<open>rect_x\<close>, \<open>rect_y\<close> are the source's \<^verbatim>\<open>rect.w\<close>, \<^verbatim>\<open>rect.h\<close>, \<^verbatim>\<open>rect.x\<close>,
  \<^verbatim>\<open>rect.y\<close>: \<^verbatim>\<open>int\<close> coordinates (the header's \<^verbatim>\<open>stbrp_coord\<close>), kept unbounded here.
\<close>

record PackRect =
  rect_w :: int
  rect_h :: int
  rect_x :: int
  rect_y :: int

definition RECT_PAD :: u32 where
  "RECT_PAD = 1"

record collect_state =
  glyphs :: "(u32 \<times> GlyphData) list"
  rects :: "PackRect list"
  totalW :: u32
  totalH :: u32

text \<open>
  \<^verbatim>\<open>std::map<FT_UInt, GlyphData>\<close> is a list of pairs kept in increasing key order, the
  order in which the program iterates it. \<^verbatim>\<open>try_emplace\<close> inserts a new key at its place
  and leaves an existing key alone.
\<close>

definition map_contains :: "u32 \<Rightarrow> (u32 \<times> 'v) list \<Rightarrow> bool" where
  "map_contains k m = (k \<in> fst ` set m)"

definition map_emplace :: "u32 \<Rightarrow> 'v \<Rightarrow> (u32 \<times> 'v) list \<Rightarrow> (u32 \<times> 'v) list" where
  "map_emplace k v m = insort_key fst (k, v) m"

text \<open>The body of the inner loop, for one codepoint (lines 262-287).\<close>

definition collect_cp :: "Face \<Rightarrow> u32 \<Rightarrow> collect_state \<Rightarrow> error + collect_state" where
  "collect_cp face cp st =
     (let gi = FT_Get_Char_Index face (ucast cp) in
      if map_contains gi (glyphs st) then Inr st
      else
        (case FT_Load_Glyph face gi of (err, slot) \<Rightarrow>
           if err \<noteq> 0 then Inl (FT_Error err)
           else
             (let glyph = \<lparr>rectIndex = None, glyphIndex = gi,
                           width = bitmap_width slot, height = bitmap_rows slot,
                           leftBearing = bitmap_left slot, topBearing = bitmap_top slot,
                           advance = advance_x slot\<rparr>
              in if width glyph * height glyph \<noteq> 0 then
                   (let rect = \<lparr>rect_w = sint (width glyph + RECT_PAD * 2),
                                 rect_h = sint (height glyph + RECT_PAD * 2),
                                 rect_x = 0, rect_y = 0\<rparr>;
                        rects' = rects st @ [rect];
                        glyph' = glyph\<lparr>rectIndex := Some (length rects' - 1)\<rparr>
                    in Inr \<lparr>glyphs = map_emplace gi glyph' (glyphs st), rects = rects',
                            totalW = totalW st + width glyph,
                            totalH = totalH st + height glyph\<rparr>)
                 else Inr (st\<lparr>glyphs := map_emplace gi glyph (glyphs st)\<rparr>))))"

text \<open>
  \<^verbatim>\<open>for (uint32_t cp = first; cp <= last; ++cp) body\<close>, where the body may end the run
  with a diagnostic. \<^verbatim>\<open>++cp\<close> wraps at \<open>2^32\<close>, so with \<open>last = 0xFFFFFFFF\<close> the condition
  never fails: the loop is a partial function.
\<close>

partial_function (option) for_cp ::
  "(u32 \<Rightarrow> 's \<Rightarrow> error + 's) \<Rightarrow> u32 \<Rightarrow> u32 \<Rightarrow> 's \<Rightarrow> (error + 's) option" where
  "for_cp body cp lst st =
     (if cp \<le> lst then
        (case body cp st of
           Inl e \<Rightarrow> Some (Inl e)
         | Inr st' \<Rightarrow> for_cp body (cp + 1) lst st')
      else Some (Inr st))"

declare for_cp.simps [code]

text \<open>\<^verbatim>\<open>for (auto range : cpRanges)\<close> around it.\<close>

fun for_ranges ::
  "(u32 \<Rightarrow> 's \<Rightarrow> error + 's) \<Rightarrow> (u32 \<times> u32) list \<Rightarrow> 's \<Rightarrow> (error + 's) option" where
  "for_ranges body [] st = Some (Inr st)"
| "for_ranges body (r # ranges) st =
     (case for_cp body (fst r) (snd r) st of
        None \<Rightarrow> None
      | Some (Inl e) \<Rightarrow> Some (Inl e)
      | Some (Inr st') \<Rightarrow> for_ranges body ranges st')"

definition collect :: "Face \<Rightarrow> (u32 \<times> u32) list \<Rightarrow> (error + collect_state) option" where
  "collect face ranges =
     for_ranges (collect_cp face) ranges \<lparr>glyphs = [], rects = [], totalW = 0, totalH = 0\<rparr>"

section \<open>Packing with growth (lines 292-315)\<close>

text \<open>
  \<^verbatim>\<open>int targetW = sqrt(totalW)\<close>: the \<^verbatim>\<open>uint32_t\<close> total goes to \<^verbatim>\<open>double\<close> exactly, and the
  correctly rounded square root of an integer below \<open>2^32\<close> truncates to the integer
  square root.
\<close>

primrec floor_sqrt_upto :: "nat \<Rightarrow> nat \<Rightarrow> nat" where
  "floor_sqrt_upto n 0 = 0"
| "floor_sqrt_upto n (Suc k) = (if Suc k * Suc k \<le> n then Suc k else floor_sqrt_upto n k)"

definition floor_sqrt :: "nat \<Rightarrow> nat" where
  "floor_sqrt n = floor_sqrt_upto n n"

text \<open>
  \<^verbatim>\<open>targetW *= RP_GROWTH\<close> with \<^verbatim>\<open>int targetW\<close> and \<^verbatim>\<open>const float RP_GROWTH = 1.2f\<close>: the
  \<^verbatim>\<open>int\<close> is converted to \<^verbatim>\<open>float\<close>, multiplied in \<^verbatim>\<open>float\<close>, and the product is truncated
  back to \<^verbatim>\<open>int\<close>. \<open>1.2f\<close> is the binary32 number \<open>10066330 / 2^23\<close>. \<open>round_f32\<close> rounds a
  non-negative integer to 24 significant bits, ties to even (the binary32 rounding, which
  does not depend on the position of the binary point).
\<close>

function bit_length :: "int \<Rightarrow> nat" where
  "bit_length n = (if n \<le> 0 then 0 else Suc (bit_length (n div 2)))"
  by pat_completeness auto
termination
  by (relation "measure nat") auto

definition round_f32 :: "int \<Rightarrow> int" where
  "round_f32 p =
     (if bit_length p \<le> 24 then p
      else
        (let s = bit_length p - 24;
             q = p div 2 ^ s;
             r = p mod 2 ^ s;
             half = 2 ^ (s - 1)
         in (if r > half \<or> (r = half \<and> odd q) then q + 1 else q) * 2 ^ s))"

definition RP_GROWTH_mantissa :: int where
  "RP_GROWTH_mantissa = 10066330"

definition mul_RP_GROWTH :: "int \<Rightarrow> int" where
  "mul_RP_GROWTH n = round_f32 (round_f32 n * RP_GROWTH_mantissa) div 2 ^ 23"

definition grow :: "int \<Rightarrow> int" where
  "grow t = (if t < 0 then - mul_RP_GROWTH (- t) else mul_RP_GROWTH t)"

definition INT_MAX :: int where
  "INT_MAX = 2147483647"

text \<open>
  The packing primitive (\<^verbatim>\<open>stbrp_init_target\<close> followed by \<^verbatim>\<open>stbrp_pack_rects\<close>) is a
  parameter: from the target width and height, the number of nodes and the rectangles
  it gives whether every rectangle was packed, and the rectangles as it leaves them.
  The loop has no bound. A grown target above \<^verbatim>\<open>INT_MAX\<close> is a conversion the language
  leaves undefined.
\<close>

type_synonym stbrp = "int \<Rightarrow> int \<Rightarrow> nat \<Rightarrow> PackRect list \<Rightarrow> bool \<times> PackRect list"

partial_function (option) pack_loop ::
  "stbrp \<Rightarrow> int \<Rightarrow> int \<Rightarrow> nat \<Rightarrow> PackRect list \<Rightarrow> (error + PackRect list) option" where
  "pack_loop pack targetW targetH num_nodes rs =
     (case pack targetW targetH num_nodes rs of (ok, rs') \<Rightarrow>
        if ok then Some (Inr rs')
        else
          (let targetW' = grow targetW; targetH' = grow targetH in
           if targetW' > INT_MAX \<or> targetH' > INT_MAX then Some (Inl Undefined_behaviour)
           else pack_loop pack targetW' targetH' (nat targetW') rs'))"

declare pack_loop.simps [code]

text \<open>The bounding box loop (lines 309-314), from \<open>atlasW = 0\<close>, \<open>atlasH = 0\<close>.\<close>

fun atlas_size :: "PackRect list \<Rightarrow> int \<times> int \<Rightarrow> int \<times> int" where
  "atlas_size [] (atlasW, atlasH) = (atlasW, atlasH)"
| "atlas_size (r # rs) (atlasW, atlasH) =
     atlas_size rs
       (if rect_x r + rect_w r > atlasW then rect_x r + rect_w r else atlasW,
        if rect_y r + rect_h r > atlasH then rect_y r + rect_h r else atlasH)"

definition pack_stage :: "stbrp \<Rightarrow> collect_state \<Rightarrow> (error + PackRect list \<times> int \<times> int) option" where
  "pack_stage pack st =
     (let targetW = int (floor_sqrt (unat (totalW st)));
          targetH = int (floor_sqrt (unat (totalH st)))
      in case pack_loop pack targetW targetH (nat targetW * 2) (rects st) of
           None \<Rightarrow> None
         | Some (Inl e) \<Rightarrow> Some (Inl e)
         | Some (Inr rs) \<Rightarrow> Some (Inr (rs, atlas_size rs (0, 0))))"

section \<open>Compositing (lines 318-378)\<close>

text \<open>The values of FreeType's \<^verbatim>\<open>FT_Pixel_Mode\<close>.\<close>

definition FT_PIXEL_MODE_NONE :: nat where "FT_PIXEL_MODE_NONE = 0"
definition FT_PIXEL_MODE_MONO :: nat where "FT_PIXEL_MODE_MONO = 1"
definition FT_PIXEL_MODE_GRAY :: nat where "FT_PIXEL_MODE_GRAY = 2"
definition FT_PIXEL_MODE_GRAY2 :: nat where "FT_PIXEL_MODE_GRAY2 = 3"
definition FT_PIXEL_MODE_GRAY4 :: nat where "FT_PIXEL_MODE_GRAY4 = 4"
definition FT_PIXEL_MODE_LCD :: nat where "FT_PIXEL_MODE_LCD = 5"
definition FT_PIXEL_MODE_LCD_V :: nat where "FT_PIXEL_MODE_LCD_V = 6"
definition FT_PIXEL_MODE_BGRA :: nat where "FT_PIXEL_MODE_BGRA = 7"

text \<open>Lines 336-337: the padding is taken off the rectangle in place.\<close>

definition remove_padding :: "PackRect \<Rightarrow> PackRect" where
  "remove_padding r =
     r\<lparr>rect_x := rect_x r + sint RECT_PAD, rect_y := rect_y r + sint RECT_PAD,
       rect_w := rect_w r - sint (RECT_PAD * 2), rect_h := rect_h r - sint (RECT_PAD * 2)\<rparr>"

text \<open>
  One glyph of the table. The bytes copied into the atlas buffer are left out: the
  model keeps what the step does to the rectangles and how it can end the run.
\<close>

definition composite_glyph :: "Face \<Rightarrow> bool \<Rightarrow> GlyphData \<Rightarrow> PackRect list \<Rightarrow> error + PackRect list" where
  "composite_glyph face mn glyph rs =
     (case rectIndex glyph of
        None \<Rightarrow> Inr rs
      | Some ri \<Rightarrow>
          (case FT_Load_Glyph face (glyphIndex glyph) of (err, slot) \<Rightarrow>
             if err \<noteq> 0 then Inl (FT_Error err)
             else
               (case (if \<not> format_is_bitmap slot then FT_Render_Glyph face slot mn
                      else (0, slot)) of (err2, slot2) \<Rightarrow>
                  if err2 \<noteq> 0 then Inl (FT_Error err2)
                  else
                    (let rs' = rs[ri := remove_padding (rs ! ri)] in
                     if pixel_mode slot2 = FT_PIXEL_MODE_GRAY then Inr rs'
                     else if pixel_mode slot2 = FT_PIXEL_MODE_MONO then Inr rs'
                     else if pixel_mode slot2 \<in> {FT_PIXEL_MODE_BGRA, FT_PIXEL_MODE_NONE,
                               FT_PIXEL_MODE_LCD, FT_PIXEL_MODE_LCD_V, FT_PIXEL_MODE_GRAY2,
                               FT_PIXEL_MODE_GRAY4}
                     then Inl (Unsupported_pixel_mode (pixel_mode slot2))
                     else Inl (Unknown_pixel_mode (pixel_mode slot2))))))"

fun composite :: "Face \<Rightarrow> bool \<Rightarrow> (u32 \<times> GlyphData) list \<Rightarrow> PackRect list \<Rightarrow> error + PackRect list" where
  "composite face mn [] rs = Inr rs"
| "composite face mn (p # ps) rs =
     (case composite_glyph face mn (snd p) rs of
        Inl e \<Rightarrow> Inl e
      | Inr rs' \<Rightarrow> composite face mn ps rs')"

section \<open>The sidecar (lines 402-465)\<close>

text \<open>
  What the program sends to the stream with \<^verbatim>\<open><<\<close>, in order: a piece of text or a
  number. \<open>render\<close> gives the characters of the file; numbers are printed in decimal.
\<close>

datatype tok = Str string | Num int

fun show_nat :: "nat \<Rightarrow> string" where
  "show_nat n =
     (if n < 10 then [char_of (48 + n)] else show_nat (n div 10) @ [char_of (48 + n mod 10)])"

definition show_int :: "int \<Rightarrow> string" where
  "show_int n = (if n < 0 then CHR ''-'' # show_nat (nat (- n)) else show_nat (nat n))"

fun render_tok :: "tok \<Rightarrow> string" where
  "render_tok (Str s) = s"
| "render_tok (Num n) = show_int n"

definition render :: "tok list \<Rightarrow> string" where
  "render ts = concat (map render_tok ts)"

text \<open>\<^verbatim>\<open>v >> 6\<close> on a signed 64-bit value: the arithmetic shift.\<close>

definition shr6 :: "u64 \<Rightarrow> int" where
  "shr6 v = sint (signed_drop_bit 6 v)"

text \<open>
  The state of the glyph loop (lines 405-435). \<^verbatim>\<open>prevGlyph\<close> starts as zero bytes.
  \<^verbatim>\<open>glyphIdToJsonId\<close> is the \<^verbatim>\<open>unordered_map\<close> filled here and read by the codepoint loop.
\<close>

record glyph_enc =
  nextJsonId :: nat
  prevGlyph :: GlyphData
  prevRectX :: int
  prevRectY :: int
  glyphIdToJsonId :: "u32 \<rightharpoonup> nat"
  glyph_out :: "tok list"

definition zero_GlyphData :: GlyphData where
  "zero_GlyphData =
     \<lparr>rectIndex = Some 0, glyphIndex = 0, width = 0, height = 0, leftBearing = 0,
      topBearing = 0, advance = 0\<rparr>"

definition initial_glyph_enc :: glyph_enc where
  "initial_glyph_enc =
     \<lparr>nextJsonId = 0, prevGlyph = zero_GlyphData, prevRectX = 0, prevRectY = 0,
      glyphIdToJsonId = Map.empty, glyph_out = []\<rparr>"

definition encode_glyph :: "PackRect list \<Rightarrow> GlyphData \<Rightarrow> glyph_enc \<Rightarrow> glyph_enc" where
  "encode_glyph rs glyph s =
     (let sep = (if nextJsonId s \<noteq> 0 then [Str '',''] else []);
          rectX = (case rectIndex glyph of None \<Rightarrow> 0 | Some ri \<Rightarrow> rect_x (rs ! ri));
          rectY = (case rectIndex glyph of None \<Rightarrow> 0 | Some ri \<Rightarrow> rect_y (rs ! ri))
      in \<lparr>nextJsonId = nextJsonId s + 1,
          prevGlyph = glyph,
          prevRectX = rectX,
          prevRectY = rectY,
          glyphIdToJsonId = (glyphIdToJsonId s)(glyphIndex glyph \<mapsto> nextJsonId s),
          glyph_out = glyph_out s @ sep @
            [Num (uint (width glyph) - uint (width (prevGlyph s))), Str '','',
             Num (uint (height glyph) - uint (height (prevGlyph s))), Str '','',
             Num (sint (leftBearing glyph) - sint (leftBearing (prevGlyph s))), Str '','',
             Num (sint (topBearing glyph) - sint (topBearing (prevGlyph s))), Str '','',
             Num (shr6 (advance glyph - advance (prevGlyph s))), Str '','',
             Num (rectX - prevRectX s), Str '','',
             Num (rectY - prevRectY s)]\<rparr>)"

definition encode_glyphs :: "PackRect list \<Rightarrow> (u32 \<times> GlyphData) list \<Rightarrow> glyph_enc" where
  "encode_glyphs rs table = foldl (\<lambda>s p. encode_glyph rs (snd p) s) initial_glyph_enc table"

text \<open>
  The state of the codepoint loop (lines 439-458). \<^verbatim>\<open>i\<close> is incremented by the loop
  header, so also when the body leaves by \<^verbatim>\<open>continue\<close>. \<^verbatim>\<open>glyphIdToJsonId[glyphIndex]\<close> gives
  0 for a key that is not in the map.
\<close>

record cp_enc =
  enc_i :: nat
  lastCp :: u32
  lastGlyphJsonId :: u32
  cp_out :: "tok list"

definition initial_cp_enc :: cp_enc where
  "initial_cp_enc = \<lparr>enc_i = 0, lastCp = 0, lastGlyphJsonId = 0, cp_out = []\<rparr>"

definition encode_cp :: "Face \<Rightarrow> (u32 \<rightharpoonup> nat) \<Rightarrow> u32 \<Rightarrow> cp_enc \<Rightarrow> error + cp_enc" where
  "encode_cp face ids cp s =
     (let gi = FT_Get_Char_Index face (ucast cp) in
      if gi = 0 then Inr (s\<lparr>enc_i := enc_i s + 1\<rparr>)
      else
        (let glyphJsonId = (case ids gi of None \<Rightarrow> 0 | Some j \<Rightarrow> j);
             sep = (if enc_i s \<noteq> 0 then [Str '',''] else [])
         in Inr \<lparr>enc_i = enc_i s + 1,
                 lastCp = cp,
                 lastGlyphJsonId = of_nat glyphJsonId,
                 cp_out = cp_out s @ sep @
                   [Num (uint cp - uint (lastCp s)), Str '','',
                    Num (int glyphJsonId - uint (lastGlyphJsonId s))]\<rparr>))"

definition encode_codepoints ::
  "Face \<Rightarrow> (u32 \<rightharpoonup> nat) \<Rightarrow> (u32 \<times> u32) list \<Rightarrow> (error + cp_enc) option" where
  "encode_codepoints face ids ranges = for_ranges (encode_cp face ids) ranges initial_cp_enc"

definition sidecar_toks ::
  "Face \<Rightarrow> (u32 \<times> GlyphData) list \<Rightarrow> PackRect list \<Rightarrow> (u32 \<times> u32) list \<Rightarrow> tok list option" where
  "sidecar_toks face table rs ranges =
     (let g = encode_glyphs rs table in
      case encode_codepoints face (glyphIdToJsonId g) ranges of
        Some (Inr c) \<Rightarrow>
          Some ([Str ''{'', Str ''\"version\":1,'', Str ''\"glyphs\":[''] @ glyph_out g @
                [Str ''],\"codepoints\":[''] @ cp_out c @
                [Str ''],\"metrics\":{'',
                 Str ''\"ascender\":'', Num (shr6 (metrics_ascender face)), Str '','',
                 Str ''\"descender\":'', Num (shr6 (metrics_descender face)), Str '','',
                 Str ''\"height\":'', Num (shr6 (metrics_height face)),
                 Str ''}'', Str ''}''])
      | _ \<Rightarrow> None)"

section \<open>The whole run\<close>

text \<open>
  The other collaborators: FreeType's library and face calls, the packing primitive,
  the file system and libpng. \<open>to_fixed\<close> is \<^verbatim>\<open>(FT_Fixed)(value * (1<<16))\<close> on the \<^verbatim>\<open>double\<close>
  that \<^verbatim>\<open>ParseFloat\<close> returns. \<open>create_directory_throws\<close> says whether
  \<^verbatim>\<open>std::filesystem::create_directory\<close> throws, \<open>fstream_open\<close> whether the stream on the
  sidecar's path is open after its construction.
\<close>

record Var_Axis =
  axis_name :: string
  axis_minimum :: int
  axis_def :: int
  axis_maximum :: int

record World =
  FT_Init_FreeType :: int
  FT_New_Face :: "string \<Rightarrow> int \<times> Face"
  FT_Set_Pixel_Sizes :: "Face \<Rightarrow> u32 \<Rightarrow> int \<times> Face"
  FT_Get_MM_Var :: "Face \<Rightarrow> int \<times> Var_Axis list"
  FT_Set_Var_Design_Coordinates :: "Face \<Rightarrow> int list \<Rightarrow> int \<times> Face"
  to_fixed :: "parsed_float \<Rightarrow> int"
  stbrp_pack :: stbrp
  create_directory_throws :: "string \<Rightarrow> bool"
  png_image_write_to_file :: "string \<Rightarrow> u32 \<Rightarrow> u32 \<Rightarrow> int"
  fstream_open :: "string \<Rightarrow> bool"

text \<open>The loop over the font's axes (lines 203-217): the coordinates, and the requested axes left over.\<close>

fun axis_loop ::
  "World \<Rightarrow> Var_Axis list \<Rightarrow> (string \<times> parsed_float) list \<Rightarrow> int list \<Rightarrow>
   error + (int list \<times> (string \<times> parsed_float) list)" where
  "axis_loop world [] ax coords = Inr (coords, ax)"
| "axis_loop world (axis # rest) ax coords =
     (let coord = (case map_of ax (axis_name axis) of
                     None \<Rightarrow> axis_def axis
                   | Some v \<Rightarrow> to_fixed world v);
          ax' = filter (\<lambda>p. fst p \<noteq> axis_name axis) ax
      in if coord < axis_minimum axis \<or> coord > axis_maximum axis
         then Inl (Axis_out_of_bounds (axis_name axis))
         else axis_loop world rest ax' (coords @ [coord]))"

definition apply_axes :: "World \<Rightarrow> Face \<Rightarrow> (string \<times> parsed_float) list \<Rightarrow> error + Face" where
  "apply_axes world face ax =
     (if ax = [] then Inr face
      else
        (case FT_Get_MM_Var world face of (err, master) \<Rightarrow>
           if err \<noteq> 0 then Inl (FT_Error err)
           else if length master = 0 then Inl Font_has_no_axes
           else
             (case axis_loop world master ax [] of
                Inl e \<Rightarrow> Inl e
              | Inr (coords, ax') \<Rightarrow>
                  if ax' \<noteq> [] then Inl (Axes_do_not_exist (fst ` set ax'))
                  else
                    (case FT_Set_Var_Design_Coordinates world face coords of (err2, face') \<Rightarrow>
                       if err2 \<noteq> 0 then Inl (FT_Error err2) else Inr face'))))"

text \<open>Lines 120-233: everything up to the face that the pipeline works on.\<close>

definition startup :: "World \<Rightarrow> string list \<Rightarrow> error + (config \<times> Face)" where
  "startup world args =
     (if FT_Init_FreeType world \<noteq> 0 then Inl (FT_Error (FT_Init_FreeType world))
      else
        (case parse_args initial_config args of
           Inl e \<Rightarrow> Inl e
         | Inr c \<Rightarrow>
             if fontPath c = None \<or> outDir c = None then Inl Font_and_out_must_be_set
             else
               (case FT_New_Face world (the (fontPath c)) of (err, face0) \<Rightarrow>
                  if err \<noteq> 0 then Inl (FT_Error err)
                  else
                    (case FT_Set_Pixel_Sizes world face0 (desiredSize c) of (err2, face1) \<Rightarrow>
                       if err2 \<noteq> 0 then Inl (FT_Error err2)
                       else
                         (case apply_axes world face1 (axes c) of
                            Inl e \<Rightarrow> Inl e
                          | Inr face \<Rightarrow> Inr (c, face))))))"

text \<open>What the stages before the output hand over (lines 235-378).\<close>

record artefacts =
  art_face :: Face
  art_outDir :: string
  art_ranges :: "(u32 \<times> u32) list"
  art_glyphs :: "(u32 \<times> GlyphData) list"
  art_rects :: "PackRect list"
  atlasW :: int
  atlasH :: int

definition pipeline :: "World \<Rightarrow> string list \<Rightarrow> (error + artefacts) option" where
  "pipeline world args =
     (case startup world args of
        Inl e \<Rightarrow> Some (Inl e)
      | Inr (c, face) \<Rightarrow>
          (case resolve_ranges face (cpRanges c) of
             None \<Rightarrow> None
           | Some (Inl e) \<Rightarrow> Some (Inl e)
           | Some (Inr ranges) \<Rightarrow>
               (case collect face ranges of
                  None \<Rightarrow> None
                | Some (Inl e) \<Rightarrow> Some (Inl e)
                | Some (Inr st) \<Rightarrow>
                    (case pack_stage (stbrp_pack world) st of
                       None \<Rightarrow> None
                     | Some (Inl e) \<Rightarrow> Some (Inl e)
                     | Some (Inr (packed, aw, ah)) \<Rightarrow>
                         (case composite face (mono c) (glyphs st) packed of
                            Inl e \<Rightarrow> Some (Inl e)
                          | Inr final \<Rightarrow>
                              Some (Inr \<lparr>art_face = face, art_outDir = the (outDir c),
                                         art_ranges = ranges, art_glyphs = glyphs st,
                                         art_rects = final, atlasW = aw, atlasH = ah\<rparr>))))))"

text \<open>
  How a run ends and what it leaves: the exit status (\<^verbatim>\<open>return -1\<close>, \<^verbatim>\<open>exit(-1)\<close>,
  \<^verbatim>\<open>return 0\<close>), an uncaught exception, or undefined behaviour; the diagnostic printed;
  and the output files that exist afterwards, in the order of their creation. A file
  is listed when the call that writes it reported success.
\<close>

datatype ending = Exit int | Uncaught_exception | Undefined

datatype file_content = PNG_image int int | Text string

record outcome =
  ending :: ending
  diagnostic :: "error option"
  files :: "(string \<times> file_content) list"

text \<open>\<^verbatim>\<open>std::filesystem::path{dir} / name\<close> for a relative \<open>name\<close>.\<close>

definition path_join :: "string \<Rightarrow> string \<Rightarrow> string" where
  "path_join dir name =
     (if dir = [] then name
      else if last dir = CHR ''/'' then dir @ name
      else dir @ ''/'' @ name)"

text \<open>Lines 380-470.\<close>

definition write_outputs :: "World \<Rightarrow> artefacts \<Rightarrow> outcome option" where
  "write_outputs world a =
     (if create_directory_throws world (art_outDir a)
      then Some \<lparr>ending = Uncaught_exception, diagnostic = None, files = []\<rparr>
      else
        (let outAtlas = path_join (art_outDir a) ''atlas.png'';
             outMap = path_join (art_outDir a) ''map.json'';
             code = png_image_write_to_file world outAtlas
                      (word_of_int (atlasW a)) (word_of_int (atlasH a))
         in if code \<noteq> 1
            then Some \<lparr>ending = Exit (- 1), diagnostic = Some (Failed_to_write_PNG code), files = []\<rparr>
            else if \<not> fstream_open world outMap
            then Some \<lparr>ending = Exit (- 1), diagnostic = Some (Failed_to_write_map outMap),
                       files = [(outAtlas, PNG_image (atlasW a) (atlasH a))]\<rparr>
            else
              (case sidecar_toks (art_face a) (art_glyphs a) (art_rects a) (art_ranges a) of
                 None \<Rightarrow> None
               | Some ts \<Rightarrow>
                   Some \<lparr>ending = Exit 0, diagnostic = None,
                         files = [(outAtlas, PNG_image (atlasW a) (atlasH a)),
                                  (outMap, Text (render ts))]\<rparr>)))"

definition main :: "World \<Rightarrow> string list \<Rightarrow> outcome option" where
  "main world args =
     (case pipeline world args of
        None \<Rightarrow> None
      | Some (Inl Undefined_behaviour) \<Rightarrow>
          Some \<lparr>ending = Undefined, diagnostic = None, files = []\<rparr>
      | Some (Inl e) \<Rightarrow> Some \<lparr>ending = Exit (- 1), diagnostic = Some e, files = []\<rparr>
      | Some (Inr a) \<Rightarrow> write_outputs world a)"

section \<open>Reading the sidecar back\<close>

text \<open>
  The reader's side, as the spec describes it: the numbers of an array are cut into
  entries of \<open>n\<close> values (7 for \<^verbatim>\<open>glyphs\<close>, 2 for \<^verbatim>\<open>codepoints\<close>), and every column is summed
  cumulatively in entry order, from 0.
\<close>

fun nums_of :: "tok list \<Rightarrow> int list" where
  "nums_of [] = []"
| "nums_of (Str s # ts) = nums_of ts"
| "nums_of (Num n # ts) = n # nums_of ts"

primrec rows :: "nat \<Rightarrow> nat \<Rightarrow> int list \<Rightarrow> int list list" where
  "rows n 0 ds = []"
| "rows n (Suc k) ds = take n ds # rows n k (drop n ds)"

definition split_rows :: "nat \<Rightarrow> int list \<Rightarrow> int list list" where
  "split_rows n ds = rows n (length ds div n) ds"

fun decode_rows :: "int list \<Rightarrow> int list list \<Rightarrow> int list list" where
  "decode_rows prev [] = []"
| "decode_rows prev (d # ds) = map2 (+) prev d # decode_rows (map2 (+) prev d) ds"

definition decode :: "nat \<Rightarrow> int list \<Rightarrow> int list list" where
  "decode n ds = decode_rows (replicate n 0) (split_rows n ds)"

section \<open>Example collaborators\<close>

text \<open>
  A font given by its character map (character code and glyph index, in increasing
  order of the codes) and its glyph slots, whose calls all succeed; a primitive that
  packs the rectangles into one row; and a world in which every call succeeds.
\<close>

definition example_slot :: "u32 \<Rightarrow> u32 \<Rightarrow> u64 \<Rightarrow> GlyphSlot" where
  "example_slot wd ht adv =
     \<lparr>format_is_bitmap = False, bitmap_width = wd, bitmap_rows = ht, bitmap_left = 1,
      bitmap_top = ht, advance_x = adv, pixel_mode = FT_PIXEL_MODE_NONE\<rparr>"

definition example_face :: "(u64 \<times> u32) list \<Rightarrow> (u32 \<Rightarrow> GlyphSlot) \<Rightarrow> Face" where
  "example_face cmap slots =
     \<lparr>FT_Get_First_Char = (case cmap of [] \<Rightarrow> (0, 0) | p # _ \<Rightarrow> p),
      FT_Get_Next_Char = (\<lambda>c. case find (\<lambda>p. c < fst p) cmap of None \<Rightarrow> (0, 0) | Some p \<Rightarrow> p),
      FT_Get_Char_Index = (\<lambda>c. case map_of cmap c of None \<Rightarrow> 0 | Some g \<Rightarrow> g),
      FT_Load_Glyph = (\<lambda>g. (0, slots g)),
      FT_Render_Glyph = (\<lambda>slot mn. (0, slot\<lparr>format_is_bitmap := True,
         pixel_mode := (if mn then FT_PIXEL_MODE_MONO else FT_PIXEL_MODE_GRAY)\<rparr>)),
      metrics_ascender = 960, metrics_descender = - 256, metrics_height = 1216\<rparr>"

fun row_place :: "int \<Rightarrow> PackRect list \<Rightarrow> PackRect list" where
  "row_place x0 [] = []"
| "row_place x0 (r # rs) = r\<lparr>rect_x := x0, rect_y := 0\<rparr> # row_place (x0 + rect_w r) rs"

definition row_pack :: stbrp where
  "row_pack targetW targetH num_nodes rs =
     (list_all (\<lambda>r. 0 \<le> rect_w r) rs \<and> sum_list (map rect_w rs) \<le> targetW \<and>
      list_all (\<lambda>r. rect_h r \<le> targetH) rs,
      row_place 0 rs)"

definition example_world :: "Face \<Rightarrow> World" where
  "example_world face =
     \<lparr>FT_Init_FreeType = 0,
      FT_New_Face = (\<lambda>path. (0, face)),
      FT_Set_Pixel_Sizes = (\<lambda>f sz. (0, f)),
      FT_Get_MM_Var = (\<lambda>f. (0, [])),
      FT_Set_Var_Design_Coordinates = (\<lambda>f coords. (0, f)),
      to_fixed = (\<lambda>(num, denom, dv). uint num * 65536),
      stbrp_pack = row_pack,
      create_directory_throws = (\<lambda>dir. False),
      png_image_write_to_file = (\<lambda>path wd ht. 1),
      fstream_open = (\<lambda>path. True)\<rparr>"

text \<open>
  The font of the spec's scenario: \<open>A\<close> maps to glyph 3, \<open>B\<close> and \<open>C\<close> to glyph 7;
  every other codepoint has no glyph. All glyphs are 16 by 16 pixels, 17 pixels apart.
\<close>

definition abc_face :: Face where
  "abc_face = example_face [(65, 3), (66, 7), (67, 7)] (\<lambda>g. example_slot 16 16 1088)"

section \<open>The loops as lists\<close>

text \<open>
  The codepoints that \<^verbatim>\<open>for (cp = first; cp <= last; ++cp)\<close> visits when it ends, the
  codepoints of all ranges in order, and a loop body run over a list of codepoints.
\<close>

definition cp_list :: "u32 \<Rightarrow> u32 \<Rightarrow> u32 list" where
  "cp_list cp lst = map of_nat [unat cp ..< Suc (unat lst)]"

definition all_cps :: "(u32 \<times> u32) list \<Rightarrow> u32 list" where
  "all_cps ranges = concat (map (\<lambda>r. cp_list (fst r) (snd r)) ranges)"

fun steps :: "(u32 \<Rightarrow> 's \<Rightarrow> error + 's) \<Rightarrow> u32 list \<Rightarrow> 's \<Rightarrow> error + 's" where
  "steps body [] st = Inr st"
| "steps body (cp # cps) st =
     (case body cp st of Inl e \<Rightarrow> Inl e | Inr st' \<Rightarrow> steps body cps st')"

section \<open>The contract of the packing primitive\<close>

text \<open>
  Modelled from the spec: the packing primitive of \<^verbatim>\<open>stb_rect_pack.h\<close> is not among the
  sources; the spec gives its contract as
  \<^verbatim>\<open>pack(rects, width, height) -> success|failure, in-place positions\<close>, placing the
  rectangles into a bounded area. The primitive leaves the sizes alone, and when it
  reports success every rectangle lies inside the target.
\<close>

definition stbrp_contract :: "stbrp \<Rightarrow> bool" where
  "stbrp_contract pack =
     (\<forall>targetW targetH num_nodes rs.
        map rect_w (snd (pack targetW targetH num_nodes rs)) = map rect_w rs \<and>
        map rect_h (snd (pack targetW targetH num_nodes rs)) = map rect_h rs \<and>
        (fst (pack targetW targetH num_nodes rs) \<longrightarrow>
           list_all (\<lambda>r. 0 \<le> rect_x r \<and> 0 \<le> rect_y r \<and>
                         rect_x r + rect_w r \<le> targetW \<and> rect_y r + rect_h r \<le> targetH)
             (snd (pack targetW targetH num_nodes rs))))"

text \<open>
  A font whose character map has the single entry \<open>A\<close>, a glyph of 10 by 10 pixels;
  and a font whose character map starts with the character code 0, mapped to glyph 5.
\<close>

definition single_face :: Face where
  "single_face = example_face [(65, 3)] (\<lambda>g. example_slot 10 10 640)"

definition zero_face :: Face where
  "zero_face = example_face [(0, 5), (65, 3)] (\<lambda>g. example_slot 16 16 1088)"

section \<open>What collection computes\<close>

text \<open>
  The notions in which the results of collection are stated: the glyph index of a
  codepoint, the slot that \<^verbatim>\<open>FT_Load_Glyph\<close> leaves for a glyph index, whether its bitmap
  has an area (\<^verbatim>\<open>width * height != 0\<close> in \<^verbatim>\<open>unsigned int\<close>), its padded rectangle, the
  distinct elements of a list in the order of their first occurrence, the position of
  an element in a list, the glyphs with an area in the order in which they were first
  requested, and the record that collection stores for a glyph index.
\<close>

definition char_index :: "Face \<Rightarrow> u32 \<Rightarrow> u32" where
  "char_index face cp = FT_Get_Char_Index face (ucast cp)"

definition slot_of :: "Face \<Rightarrow> u32 \<Rightarrow> GlyphSlot" where
  "slot_of face g = snd (FT_Load_Glyph face g)"

definition has_area :: "Face \<Rightarrow> u32 \<Rightarrow> bool" where
  "has_area face g = (bitmap_width (slot_of face g) * bitmap_rows (slot_of face g) \<noteq> 0)"

definition padded_rect :: "Face \<Rightarrow> u32 \<Rightarrow> PackRect" where
  "padded_rect face g =
     \<lparr>rect_w = sint (bitmap_width (slot_of face g) + RECT_PAD * 2),
      rect_h = sint (bitmap_rows (slot_of face g) + RECT_PAD * 2),
      rect_x = 0, rect_y = 0\<rparr>"

definition first_seen :: "'a list \<Rightarrow> 'a list" where
  "first_seen xs = rev (remdups (rev xs))"

definition position :: "'a \<Rightarrow> 'a list \<Rightarrow> nat" where
  "position a xs = length (takeWhile (\<lambda>b. b \<noteq> a) xs)"

definition packed_order :: "Face \<Rightarrow> u32 list \<Rightarrow> u32 list" where
  "packed_order face gis = filter (has_area face) (first_seen gis)"

definition glyph_record :: "Face \<Rightarrow> u32 list \<Rightarrow> u32 \<Rightarrow> GlyphData" where
  "glyph_record face order g =
     \<lparr>rectIndex = (if has_area face g then Some (position g order) else None),
      glyphIndex = g,
      width = bitmap_width (slot_of face g),
      height = bitmap_rows (slot_of face g),
      leftBearing = bitmap_left (slot_of face g),
      topBearing = bitmap_top (slot_of face g),
      advance = advance_x (slot_of face g)\<rparr>"

text \<open>The glyph table and the rectangle list after the glyph indices \<open>gis\<close> were requested.\<close>

definition collected :: "Face \<Rightarrow> u32 list \<Rightarrow> collect_state \<Rightarrow> bool" where
  "collected face gis st =
     (glyphs st = map (\<lambda>g. (g, glyph_record face (packed_order face gis) g))
                      (sorted_list_of_set (set gis))
      \<and> rects st = map (padded_rect face) (packed_order face gis))"

definition requested_glyphs :: "Face \<Rightarrow> (u32 \<times> u32) list \<Rightarrow> u32 list" where
  "requested_glyphs face ranges = map (char_index face) (all_cps ranges)"

text \<open>
  A font in which \<open>A\<close> maps to glyph 7, of 16 by 16 pixels, and \<open>B\<close> to glyph 3, of 20
  by 20 pixels.
\<close>

definition swap_face :: Face where
  "swap_face = example_face [(65, 7), (66, 3)]
     (\<lambda>g. if g = 3 then example_slot 20 20 1344 else example_slot 16 16 1088)"

section \<open>What compositing does to the rectangles\<close>

text \<open>
  The rectangle indices stored in the table, in table order, and the effect of one
  glyph of the table on the rectangles when compositing does not end the run.
\<close>

definition rect_indices :: "(u32 \<times> GlyphData) list \<Rightarrow> nat list" where
  "rect_indices table = List.map_filter (\<lambda>p. rectIndex (snd p)) table"

definition strip_glyph :: "PackRect list \<Rightarrow> u32 \<times> GlyphData \<Rightarrow> PackRect list" where
  "strip_glyph rs p =
     (case rectIndex (snd p) of None \<Rightarrow> rs | Some ri \<Rightarrow> rs[ri := remove_padding (rs ! ri)])"

text \<open>
  The run of the spec's scenario, \<^verbatim>\<open>--font f.ttf --out o --range 65 67\<close> on the font
  \<open>abc_face\<close>, and what its stages hand to the output stage.
\<close>

definition abc_args :: "string list" where
  "abc_args = [''--font'', ''f.ttf'', ''--out'', ''o'', ''--range'', ''65'', ''67'']"

definition abc_config :: config where
  "abc_config = \<lparr>fontPath = Some ''f.ttf'', outDir = Some ''o'', desiredSize = 16,
                  cpRanges = [(65, 67)], axes = [], mono = False\<rparr>"

definition abc_state :: collect_state where
  "abc_state =
     \<lparr>glyphs = [(3, \<lparr>rectIndex = Some 0, glyphIndex = 3, width = 16, height = 16,
                     leftBearing = 1, topBearing = 16, advance = 1088\<rparr>),
                (7, \<lparr>rectIndex = Some 1, glyphIndex = 7, width = 16, height = 16,
                     leftBearing = 1, topBearing = 16, advance = 1088\<rparr>)],
      rects = [\<lparr>rect_w = 18, rect_h = 18, rect_x = 0, rect_y = 0\<rparr>,
               \<lparr>rect_w = 18, rect_h = 18, rect_x = 0, rect_y = 0\<rparr>],
      totalW = 32, totalH = 32\<rparr>"

definition abc_packed :: "PackRect list" where
  "abc_packed = [\<lparr>rect_w = 18, rect_h = 18, rect_x = 0, rect_y = 0\<rparr>,
                 \<lparr>rect_w = 18, rect_h = 18, rect_x = 18, rect_y = 0\<rparr>]"

definition abc_final :: "PackRect list" where
  "abc_final = [\<lparr>rect_w = 16, rect_h = 16, rect_x = 1, rect_y = 1\<rparr>,
                \<lparr>rect_w = 16, rect_h = 16, rect_x = 19, rect_y = 1\<rparr>]"

definition abc_artefacts :: artefacts where
  "abc_artefacts =
     \<lparr>art_face = abc_face, art_outDir = ''o'', art_ranges = [(65, 67)],
      art_glyphs = glyphs abc_state, art_rects = abc_final, atlasW = 36, atlasH = 18\<rparr>"

text \<open>The example world, except that the stream on the sidecar's path does not open.\<close>

definition closed_map_world :: "Face \<Rightarrow> World" where
  "closed_map_world face = (example_world face)\<lparr>fstream_open := (\<lambda>path. False)\<rparr>"

section \<open>What the encoder computes\<close>

text \<open>\<^verbatim>\<open>glyphIdToJsonId[glyphIndex]\<close> as a value: 0 for a key that is not in the map.\<close>

definition json_id :: "(u32 \<rightharpoonup> nat) \<Rightarrow> u32 \<Rightarrow> nat" where
  "json_id ids g = (case ids g of None \<Rightarrow> 0 | Some j \<Rightarrow> j)"

text \<open>
  Two more runs on the font \<open>abc_face\<close>: the range 64 to 67, whose first codepoint has
  no glyph, and the range 68 to 69, in which no codepoint has one.
\<close>

definition at_state :: collect_state where
  "at_state =
     \<lparr>glyphs = [(0, \<lparr>rectIndex = Some 0, glyphIndex = 0, width = 16, height = 16,
                     leftBearing = 1, topBearing = 16, advance = 1088\<rparr>),
                (3, \<lparr>rectIndex = Some 1, glyphIndex = 3, width = 16, height = 16,
                     leftBearing = 1, topBearing = 16, advance = 1088\<rparr>),
                (7, \<lparr>rectIndex = Some 2, glyphIndex = 7, width = 16, height = 16,
                     leftBearing = 1, topBearing = 16, advance = 1088\<rparr>)],
      rects = [\<lparr>rect_w = 18, rect_h = 18, rect_x = 0, rect_y = 0\<rparr>,
               \<lparr>rect_w = 18, rect_h = 18, rect_x = 0, rect_y = 0\<rparr>,
               \<lparr>rect_w = 18, rect_h = 18, rect_x = 0, rect_y = 0\<rparr>],
      totalW = 48, totalH = 48\<rparr>"

definition tofu_state :: collect_state where
  "tofu_state =
     \<lparr>glyphs = [(0, \<lparr>rectIndex = Some 0, glyphIndex = 0, width = 16, height = 16,
                     leftBearing = 1, topBearing = 16, advance = 1088\<rparr>)],
      rects = [\<lparr>rect_w = 18, rect_h = 18, rect_x = 0, rect_y = 0\<rparr>],
      totalW = 16, totalH = 16\<rparr>"



text \<open>
  What the reader reconstructs from the glyph array. The advance column is the running
  sum, from 0, of the numbers that the encoder emits for it: the shifted differences of
  consecutive advances (line 423). The other columns of an entry are the record's width,
  height and bearings, and the position of its rectangle, or 0 and 0 when it has none.
\<close>

fun advance_sums :: "int \<Rightarrow> u64 \<Rightarrow> u64 list \<Rightarrow> int list" where
  "advance_sums acc prev [] = []"
| "advance_sums acc prev (a # as) =
     (acc + shr6 (a - prev)) # advance_sums (acc + shr6 (a - prev)) a as"

definition glyph_entry :: "PackRect list \<Rightarrow> GlyphData \<Rightarrow> int \<Rightarrow> int list" where
  "glyph_entry rs g adv =
     [uint (width g), uint (height g), sint (leftBearing g), sint (topBearing g), adv,
      (case rectIndex g of None \<Rightarrow> 0 | Some ri \<Rightarrow> rect_x (rs ! ri)),
      (case rectIndex g of None \<Rightarrow> 0 | Some ri \<Rightarrow> rect_y (rs ! ri))]"

text \<open>The final placements of the run \<^verbatim>\<open>--range 64 67\<close> on the font \<open>abc_face\<close>.\<close>

definition at_final :: "PackRect list" where
  "at_final = [\<lparr>rect_w = 16, rect_h = 16, rect_x = 1, rect_y = 1\<rparr>,
               \<lparr>rect_w = 16, rect_h = 16, rect_x = 19, rect_y = 1\<rparr>,
               \<lparr>rect_w = 16, rect_h = 16, rect_x = 37, rect_y = 1\<rparr>]"

section \<open>Evaluation set-up\<close>

declare parse_args.simps [simp del]
declare bit_length.simps [simp del]
declare show_nat.simps [simp del]

section \<open>Numeric arguments\<close>

lemma ParseInt_step_Some: "\<exists>j. ParseInt_step (Some i) ch = Some j"
  by (simp add: ParseInt_step_def char_val_def Let_def)

lemma foldl_ParseInt_step_Some: "\<exists>j. foldl ParseInt_step (Some i) s = Some j"
proof (induction s arbitrary: i)
  case Nil
  then show ?case by simp
next
  case (Cons ch s)
  obtain j where "ParseInt_step (Some i) ch = Some j"
    using ParseInt_step_Some by blast
  then show ?case using Cons.IH [of j] by simp
qed

text \<open>
  C8 (a defect of the code): a numeric argument that is not a number is not rejected.
  \<^verbatim>\<open>ParseInt\<close> returns a value for every string it is given, since its guard
  \<^verbatim>\<open>ch < '0' && ch > '9'\<close> holds for no character; \<^verbatim>\<open>1x\<close> is read as 82, and the flag loop
  accepts \<^verbatim>\<open>--size 1x\<close> and \<^verbatim>\<open>--range a b\<close> as size 82 and range 49 to 50.
\<close>

theorem ParseInt_accepts_any_string:
  "(ParseInt (Some s) :: u32 option) \<noteq> None
   \<and> (ParseInt (Some ''1x'') :: u32 option) = Some 82
   \<and> parse_args initial_config [''--font'', ''f.ttf'', ''--out'', ''o'', ''--size'', ''1x'',
        ''--range'', ''a'', ''b'']
     = Inr \<lparr>fontPath = Some ''f.ttf'', outDir = Some ''o'', desiredSize = 82,
            cpRanges = [(49, 50)], axes = [], mono = False\<rparr>"
proof -
  have a: "(ParseInt (Some s) :: u32 option) \<noteq> None"
    using foldl_ParseInt_step_Some [of "0 :: u32" s] by (auto simp: ParseInt_def)
  have b: "(ParseInt (Some ''1x'') :: u32 option) = Some 82"
    by code_simp
  have c: "parse_args initial_config [''--font'', ''f.ttf'', ''--out'', ''o'', ''--size'', ''1x'',
        ''--range'', ''a'', ''b'']
     = Inr \<lparr>fontPath = Some ''f.ttf'', outDir = Some ''o'', desiredSize = 82,
            cpRanges = [(49, 50)], axes = [], mono = False\<rparr>"
    by code_simp
  show ?thesis using a b c by blast
qed

section \<open>The codepoint loops\<close>

lemma steps_append:
  "steps body (xs @ ys) st =
     (case steps body xs st of Inl e \<Rightarrow> Inl e | Inr st' \<Rightarrow> steps body ys st')"
  by (induction xs arbitrary: st) (auto split: sum.splits)

lemma for_cp_returns_bound_aux:
  assumes "for_cp body cp lst st = Some res"
  shows "(\<exists>st'. res = Inr st') \<longrightarrow> lst \<noteq> - 1"
  using assms
proof (induction rule: for_cp.raw_induct [rotated 1, consumes 1])
  case (1 for_cp' body cp lst st res)
  show ?case
  proof (cases "cp \<le> lst")
    case True
    then show ?thesis using 1 by (auto split: sum.splits)
  next
    case False
    then show ?thesis by auto
  qed
qed

lemma for_cp_returns_bound:
  assumes "for_cp body cp lst st = Some (Inr st')"
  shows "lst \<noteq> - 1"
  using for_cp_returns_bound_aux [OF assms] by simp

lemma unat_next:
  fixes cp lst :: u32
  assumes "cp \<le> lst" "lst \<noteq> - 1"
  shows "unat (cp + 1) = Suc (unat cp)"
proof -
  have "cp \<noteq> - 1" using assms by (metis word_order.extremum_unique)
  then have "1 + cp \<noteq> 0" by (simp add: add.commute eq_neg_iff_add_eq_0)
  then have "unat (1 + cp) = Suc (unat cp)" by (rule unatSuc)
  then show ?thesis by (simp add: add.commute)
qed

lemma cp_list_Cons:
  assumes "cp \<le> lst" "lst \<noteq> - 1"
  shows "cp_list cp lst = cp # cp_list (cp + 1) lst"
proof -
  have le: "unat cp \<le> unat lst" using assms(1) by (simp add: word_le_nat_alt)
  have "[unat cp ..< Suc (unat lst)] = unat cp # [Suc (unat cp) ..< Suc (unat lst)]"
    using le by (simp add: upt_conv_Cons)
  then show ?thesis by (simp add: cp_list_def unat_next [OF assms])
qed

lemma cp_list_Nil: "\<not> cp \<le> lst \<Longrightarrow> cp_list cp lst = []"
  by (simp add: cp_list_def word_le_nat_alt)

lemma for_cp_steps:
  assumes "lst \<noteq> - 1"
  shows "for_cp body cp lst st = Some (steps body (cp_list cp lst) st)"
  using assms
proof (induction "Suc (unat lst) - unat cp" arbitrary: cp st)
  case 0
  then have "\<not> cp \<le> lst" by (simp add: word_le_nat_alt)
  then show ?case by (simp add: for_cp.simps cp_list_Nil)
next
  case (Suc n)
  then have le: "cp \<le> lst" by (simp add: word_le_nat_alt)
  have suc: "unat (cp + 1) = Suc (unat cp)"
    using le Suc.prems by (rule unat_next)
  have n: "n = Suc (unat lst) - unat (cp + 1)" using Suc.hyps(2) suc by simp
  show ?case
    using Suc.hyps(1) [OF n Suc.prems] le
    by (subst for_cp.simps) (auto simp: cp_list_Cons [OF le Suc.prems] split: sum.splits)
qed

lemma for_ranges_steps:
  assumes "for_ranges body ranges st = Some (Inr st')"
  shows "steps body (all_cps ranges) st = Inr st'"
  using assms
proof (induction ranges arbitrary: st)
  case Nil
  then show ?case by (simp add: all_cps_def)
next
  case (Cons r ranges)
  from Cons.prems obtain st1 where
    a: "for_cp body (fst r) (snd r) st = Some (Inr st1)" and
    b: "for_ranges body ranges st1 = Some (Inr st')"
    by (auto split: option.splits sum.splits)
  have "snd r \<noteq> - 1" using a by (rule for_cp_returns_bound)
  then have "steps body (cp_list (fst r) (snd r)) st = Inr st1"
    using a by (simp add: for_cp_steps)
  moreover have "steps body (all_cps ranges) st1 = Inr st'"
    using b by (rule Cons.IH)
  ultimately show ?case by (simp add: all_cps_def steps_append)
qed

section \<open>Which stage prints which diagnostic\<close>

lemma for_cp_error:
  assumes "for_cp body cp lst st = Some res"
  shows "\<forall>e. res = Inl e \<longrightarrow> (\<exists>cp' st'. body cp' st' = Inl e)"
  using assms
proof (induction rule: for_cp.raw_induct [rotated 1, consumes 1])
  case (1 for_cp' body cp lst st res)
  show ?case
  proof (cases "cp \<le> lst")
    case True
    then show ?thesis using 1 by (auto split: sum.splits)
  next
    case False
    then show ?thesis using 1 by auto
  qed
qed

lemma for_ranges_error:
  assumes "for_ranges body ranges st = Some (Inl e)"
  shows "\<exists>cp' st'. body cp' st' = Inl e"
  using assms
proof (induction ranges arbitrary: st)
  case Nil
  then show ?case by simp
next
  case (Cons r ranges)
  show ?case
  proof (cases "for_cp body (fst r) (snd r) st")
    case None
    then show ?thesis using Cons.prems by simp
  next
    case (Some res)
    show ?thesis
    proof (cases res)
      case (Inl e')
      then have "e' = e" using Cons.prems Some by simp
      then show ?thesis using for_cp_error [OF Some] Inl by blast
    next
      case (Inr st1)
      then show ?thesis using Cons.prems Some Cons.IH by simp
    qed
  qed
qed

lemma collect_cp_error: "collect_cp face cp st = Inl e \<Longrightarrow> \<exists>n. e = FT_Error n"
  by (auto simp: collect_cp_def Let_def split: if_splits prod.splits)

lemma collect_error:
  assumes "collect face ranges = Some (Inl e)"
  shows "\<exists>n. e = FT_Error n"
proof -
  obtain cp' st' where "collect_cp face cp' st' = Inl e"
    using assms for_ranges_error unfolding collect_def by metis
  then show ?thesis by (rule collect_cp_error)
qed

lemma pack_loop_error:
  assumes "pack_loop pack targetW targetH num_nodes rs = Some res"
  shows "\<forall>e. res = Inl e \<longrightarrow> e = Undefined_behaviour"
  using assms
proof (induction rule: pack_loop.raw_induct [rotated 1, consumes 1])
  case (1 pack_loop' pack targetW targetH num_nodes rs res)
  then show ?case by (auto simp: Let_def split: prod.splits if_splits)
qed

lemma pack_stage_error: "pack_stage pack st = Some (Inl e) \<Longrightarrow> e = Undefined_behaviour"
  using pack_loop_error
  by (fastforce simp: pack_stage_def Let_def split: option.splits sum.splits)

lemma composite_glyph_error:
  "composite_glyph face mn glyph rs = Inl e \<Longrightarrow> e \<noteq> Font_has_no_charmap"
  by (auto simp: composite_glyph_def Let_def split: option.splits prod.splits if_splits)

lemma composite_error: "composite face mn table rs = Inl e \<Longrightarrow> e \<noteq> Font_has_no_charmap"
proof (induction table arbitrary: rs)
  case Nil
  then show ?case by simp
next
  case (Cons p ps)
  then show ?case
    using composite_glyph_error by (fastforce split: sum.splits)
qed

lemma write_outputs_diagnostic:
  "write_outputs world a = Some out \<Longrightarrow> diagnostic out \<noteq> Some Font_has_no_charmap"
  by (auto simp: write_outputs_def Let_def split: if_splits option.splits)

lemma main_no_charmap_pipeline:
  assumes "main world args = Some out" "diagnostic out = Some Font_has_no_charmap"
  shows "pipeline world args = Some (Inl Font_has_no_charmap)"
proof (cases "pipeline world args")
  case None
  then show ?thesis using assms by (simp add: main_def)
next
  case (Some res)
  show ?thesis
  proof (cases res)
    case (Inl e)
    then show ?thesis using assms Some by (cases e) (auto simp: main_def)
  next
    case (Inr a)
    then show ?thesis using assms Some write_outputs_diagnostic by (auto simp: main_def)
  qed
qed

lemma pipeline_no_charmap_resolve:
  assumes "startup world args = Inr (c, face)"
    and "pipeline world args = Some (Inl Font_has_no_charmap)"
  shows "resolve_ranges face (cpRanges c) = Some (Inl Font_has_no_charmap)"
proof (rule ccontr)
  assume n: "resolve_ranges face (cpRanges c) \<noteq> Some (Inl Font_has_no_charmap)"
  show False
    using assms n
    by (auto simp: pipeline_def split: option.splits sum.splits prod.splits
          dest: collect_error pack_stage_error composite_error)
qed

lemma resolve_no_charmap:
  "(resolve_ranges face [] = Some (Inl Font_has_no_charmap)) = (fst (FT_Get_First_Char face) = 0)"
  by (auto simp: resolve_ranges_def Let_def)

text \<open>
  C10: with no explicit range, the run prints \<^verbatim>\<open>Font has no charmap\<close> and ends with status
  \<open>-1\<close>, leaving no file, exactly when \<^verbatim>\<open>FT_Get_First_Char\<close> returns the character code 0.
  The glyph index that the call also returns is not looked at, so a font whose character
  map starts with a mapped codepoint 0 is rejected (the witness below is such a font).
\<close>

theorem no_charmap_iff_first_char_zero:
  assumes "startup world args = Inr (c, face)" and "cpRanges c = []"
  shows "(main world args =
            Some \<lparr>ending = Exit (- 1), diagnostic = Some Font_has_no_charmap, files = []\<rparr>)
         = (fst (FT_Get_First_Char face) = 0)"
proof
  assume m: "main world args =
    Some \<lparr>ending = Exit (- 1), diagnostic = Some Font_has_no_charmap, files = []\<rparr>"
  have "pipeline world args = Some (Inl Font_has_no_charmap)"
    by (rule main_no_charmap_pipeline [OF m]) simp
  then have "resolve_ranges face [] = Some (Inl Font_has_no_charmap)"
    using pipeline_no_charmap_resolve [OF assms(1)] assms(2) by simp
  then show "fst (FT_Get_First_Char face) = 0" by (simp add: resolve_no_charmap)
next
  assume "fst (FT_Get_First_Char face) = 0"
  then have "resolve_ranges face (cpRanges c) = Some (Inl Font_has_no_charmap)"
    using assms(2) by (simp add: resolve_no_charmap)
  then show "main world args =
    Some \<lparr>ending = Exit (- 1), diagnostic = Some Font_has_no_charmap, files = []\<rparr>"
    using assms(1) by (simp add: main_def pipeline_def)
qed

lemma parse_font_out:
  "parse_args initial_config [''--font'', ''f.ttf'', ''--out'', ''o'']
     = Inr \<lparr>fontPath = Some ''f.ttf'', outDir = Some ''o'', desiredSize = 16,
            cpRanges = [], axes = [], mono = False\<rparr>"
  by code_simp

lemma startup_example:
  assumes "parse_args initial_config args = Inr c" "fontPath c \<noteq> None" "outDir c \<noteq> None"
    "axes c = []"
  shows "startup (example_world face) args = Inr (c, face)"
  using assms by (simp add: startup_def example_world_def apply_axes_def)

theorem no_charmap_iff_first_char_zero_witness:
  "FT_Get_First_Char zero_face = (0, 5)
   \<and> FT_Get_Char_Index zero_face 0 = 5
   \<and> main (example_world zero_face) [''--font'', ''f.ttf'', ''--out'', ''o'']
       = Some \<lparr>ending = Exit (- 1), diagnostic = Some Font_has_no_charmap, files = []\<rparr>"
proof -
  have s: "startup (example_world zero_face) [''--font'', ''f.ttf'', ''--out'', ''o'']
     = Inr (\<lparr>fontPath = Some ''f.ttf'', outDir = Some ''o'', desiredSize = 16,
            cpRanges = [], axes = [], mono = False\<rparr>, zero_face)"
    by (rule startup_example [OF parse_font_out]) simp_all
  have f: "FT_Get_First_Char zero_face = (0, 5)"
    by (simp add: zero_face_def example_face_def)
  have g: "FT_Get_Char_Index zero_face 0 = 5"
    by (simp add: zero_face_def example_face_def)
  show ?thesis
    using no_charmap_iff_first_char_zero [OF s] f g by simp
qed

section \<open>The growth loop\<close>

lemma grow_small: "0 \<le> t \<Longrightarrow> t \<le> 4 \<Longrightarrow> grow t = t"
proof -
  assume "0 \<le> t" "t \<le> 4"
  then have "t = 0 \<or> t = 1 \<or> t = 2 \<or> t = 3 \<or> t = 4" by arith
  moreover have "grow 0 = 0" "grow 1 = 1" "grow 2 = 2" "grow 3 = 3" "grow 4 = 4"
    by code_simp+
  ultimately show ?thesis by auto
qed

lemma floor_sqrt_upto_square: "floor_sqrt_upto n k * floor_sqrt_upto n k \<le> n"
  by (induction k) auto

lemma floor_sqrt_below_25: "n < 25 \<Longrightarrow> floor_sqrt n \<le> 4"
proof (rule ccontr)
  assume n: "n < 25" and "\<not> floor_sqrt n \<le> 4"
  then have "5 \<le> floor_sqrt n" by linarith
  then have "5 * 5 \<le> floor_sqrt n * floor_sqrt n" by (intro mult_le_mono)
  moreover have "floor_sqrt n * floor_sqrt n \<le> n"
    unfolding floor_sqrt_def by (rule floor_sqrt_upto_square)
  ultimately show False using n by simp
qed

lemma wide_rect_kept:
  assumes "map rect_w rs' = map rect_w rs" "\<exists>r\<in>set rs. t < rect_w r"
  shows "\<exists>r\<in>set rs'. t < rect_w r"
proof -
  have "rect_w ` set rs' = rect_w ` set rs"
    using assms(1) by (metis set_map)
  then show ?thesis using assms(2) by (metis imageE imageI)
qed

lemma contract_fails_on_wide:
  assumes c: "stbrp_contract pack" and w: "\<exists>r\<in>set rs. targetW < rect_w r"
  shows "\<not> fst (pack targetW targetH num_nodes rs)"
proof
  assume ok: "fst (pack targetW targetH num_nodes rs)"
  let ?rs' = "snd (pack targetW targetH num_nodes rs)"
  have sizes: "map rect_w ?rs' = map rect_w rs"
    using c unfolding stbrp_contract_def by blast
  have inside: "list_all (\<lambda>r. 0 \<le> rect_x r \<and> 0 \<le> rect_y r \<and>
      rect_x r + rect_w r \<le> targetW \<and> rect_y r + rect_h r \<le> targetH) ?rs'"
    using c ok unfolding stbrp_contract_def by blast
  obtain r where "r \<in> set ?rs'" "targetW < rect_w r"
    using wide_rect_kept [OF sizes w] by blast
  then show False using inside by (auto simp: list_all_iff)
qed

lemma pack_loop_never_succeeds_aux:
  assumes "pack_loop pack targetW targetH num_nodes rs = Some res"
  shows "stbrp_contract pack \<longrightarrow> 0 \<le> targetW \<longrightarrow> targetW \<le> 4 \<longrightarrow>
         (\<exists>r\<in>set rs. targetW < rect_w r) \<longrightarrow> (\<forall>rs'. res \<noteq> Inr rs')"
  using assms
proof (induction rule: pack_loop.raw_induct [rotated 1, consumes 1])
  case (1 pack_loop' pack targetW targetH num_nodes rs res)
  show ?case
  proof (intro impI)
    assume c: "stbrp_contract pack" and lo: "0 \<le> targetW" and hi: "targetW \<le> 4"
      and w: "\<exists>r\<in>set rs. targetW < rect_w r"
    obtain ok rs1 where p: "pack targetW targetH num_nodes rs = (ok, rs1)"
      by (cases "pack targetW targetH num_nodes rs")
    have nok: "\<not> ok" using contract_fails_on_wide [OF c w, of targetH num_nodes] p by simp
    have sizes: "map rect_w rs1 = map rect_w rs"
      using c p unfolding stbrp_contract_def by (metis snd_conv)
    have w1: "\<exists>r\<in>set rs1. targetW < rect_w r" by (rule wide_rect_kept [OF sizes w])
    have g: "grow targetW = targetW" using lo hi by (rule grow_small)
    show "\<forall>rs'. res \<noteq> Inr rs'"
    proof (cases "grow targetW > INT_MAX \<or> grow targetH > INT_MAX")
      case True
      then show ?thesis using 1(2) p nok by (auto simp: Let_def)
    next
      case False
      then have "pack_loop' pack targetW (grow targetH) (nat targetW) rs1 = Some res"
        using 1(2) p nok g by (auto simp: Let_def)
      then show ?thesis using 1(1) c lo hi w1 by blast
    qed
  qed
qed

lemma pack_loop_diverges_aux:
  assumes "pack_loop pack targetW targetH num_nodes rs = Some res"
  shows "stbrp_contract pack \<longrightarrow> 0 \<le> targetW \<longrightarrow> targetW \<le> 4 \<longrightarrow>
         0 \<le> targetH \<longrightarrow> targetH \<le> 4 \<longrightarrow>
         (\<exists>r\<in>set rs. targetW < rect_w r) \<longrightarrow> False"
  using assms
proof (induction rule: pack_loop.raw_induct [rotated 1, consumes 1])
  case (1 pack_loop' pack targetW targetH num_nodes rs res)
  show ?case
  proof (intro impI)
    assume c: "stbrp_contract pack" and lo: "0 \<le> targetW" and hi: "targetW \<le> 4"
      and loh: "0 \<le> targetH" and hih: "targetH \<le> 4"
      and w: "\<exists>r\<in>set rs. targetW < rect_w r"
    obtain ok rs1 where p: "pack targetW targetH num_nodes rs = (ok, rs1)"
      by (cases "pack targetW targetH num_nodes rs")
    have nok: "\<not> ok" using contract_fails_on_wide [OF c w, of targetH num_nodes] p by simp
    have sizes: "map rect_w rs1 = map rect_w rs"
      using c p unfolding stbrp_contract_def by (metis snd_conv)
    have w1: "\<exists>r\<in>set rs1. targetW < rect_w r" by (rule wide_rect_kept [OF sizes w])
    have g: "grow targetW = targetW" using lo hi by (rule grow_small)
    have gh: "grow targetH = targetH" using loh hih by (rule grow_small)
    have "\<not> (grow targetW > INT_MAX \<or> grow targetH > INT_MAX)"
      using g gh hi hih by (simp add: INT_MAX_def)
    then have "pack_loop' pack targetW targetH (nat targetW) rs1 = Some res"
      using 1(2) p nok g gh by (auto simp: Let_def)
    then show False using 1(1) c lo hi loh hih w1 by blast
  qed
qed

text \<open>
  C3 (a defect of the code): the growth loop does not always end. \<^verbatim>\<open>targetW *= 1.2f\<close>
  truncates to \<^verbatim>\<open>int\<close>, so a target of at most 4 never grows. When the widths of the glyphs
  sum to less than 25 pixels the first target width is at most 4; with a rectangle wider
  than that, a primitive that keeps to its contract fails on every attempt, and the
  packing stage never succeeds. When the heights also sum to less than 25 the loop runs
  forever.
\<close>

theorem packer_stuck_below_25:
  assumes "stbrp_contract pack" and "unat (totalW st) < 25"
    and "\<exists>r\<in>set (rects st). 4 < rect_w r"
  shows "(\<forall>res. pack_stage pack st \<noteq> Some (Inr res))
       \<and> (unat (totalH st) < 25 \<longrightarrow> pack_stage pack st = None)"
proof -
  let ?W = "int (floor_sqrt (unat (totalW st)))"
  let ?H = "int (floor_sqrt (unat (totalH st)))"
  let ?loop = "pack_loop pack ?W ?H (nat ?W * 2) (rects st)"
  have hi: "?W \<le> 4" using floor_sqrt_below_25 [OF assms(2)] by simp
  have w: "\<exists>r\<in>set (rects st). ?W < rect_w r" using assms(3) hi by force
  have a: "\<forall>res. pack_stage pack st \<noteq> Some (Inr res)"
  proof (intro allI notI)
    fix res assume "pack_stage pack st = Some (Inr res)"
    then obtain rs' where "?loop = Some (Inr rs')"
      by (auto simp: pack_stage_def Let_def split: option.splits sum.splits)
    then show False using pack_loop_never_succeeds_aux assms(1) hi w by fastforce
  qed
  have b: "pack_stage pack st = None" if h: "unat (totalH st) < 25"
  proof -
    have hih: "?H \<le> 4" using floor_sqrt_below_25 [OF h] by simp
    have "?loop = None"
    proof (cases ?loop)
      case None
      then show ?thesis .
    next
      case (Some res)
      then show ?thesis using pack_loop_diverges_aux [OF Some] assms(1) hi hih w by simp
    qed
    then show ?thesis by (simp add: pack_stage_def Let_def)
  qed
  show ?thesis using a b by blast
qed

section \<open>The example primitive\<close>

lemma row_place_w: "map rect_w (row_place x0 rs) = map rect_w rs"
  by (induction rs arbitrary: x0) auto

lemma row_place_h: "map rect_h (row_place x0 rs) = map rect_h rs"
  by (induction rs arbitrary: x0) auto

lemma row_place_inside:
  assumes "list_all (\<lambda>r. 0 \<le> rect_w r) rs" "0 \<le> x0" "x0 + sum_list (map rect_w rs) \<le> W"
    "list_all (\<lambda>r. rect_h r \<le> H) rs"
  shows "list_all (\<lambda>r. 0 \<le> rect_x r \<and> 0 \<le> rect_y r \<and>
           rect_x r + rect_w r \<le> W \<and> rect_y r + rect_h r \<le> H) (row_place x0 rs)"
  using assms
proof (induction rs arbitrary: x0)
  case Nil
  then show ?case by simp
next
  case (Cons r rs)
  have nn: "0 \<le> sum_list (map rect_w rs)"
    using Cons.prems(1) by (auto simp: list_all_iff intro!: sum_list_nonneg)
  have "list_all (\<lambda>r. 0 \<le> rect_x r \<and> 0 \<le> rect_y r \<and>
           rect_x r + rect_w r \<le> W \<and> rect_y r + rect_h r \<le> H) (row_place (x0 + rect_w r) rs)"
    using Cons.prems by (intro Cons.IH) auto
  then show ?case using Cons.prems nn by auto
qed

lemma row_pack_contract: "stbrp_contract row_pack"
  unfolding stbrp_contract_def row_pack_def
  using row_place_inside [of _ 0] by (auto simp: row_place_w row_place_h)

lemma resolve_single: "resolve_ranges single_face [] = Some (Inr [(65, 65)])"
  by code_simp

lemma collect_single:
  "collect single_face [(65, 65)] =
     Some (Inr \<lparr>glyphs = [(3, \<lparr>rectIndex = Some 0, glyphIndex = 3, width = 10, height = 10,
                   leftBearing = 1, topBearing = 10, advance = 640\<rparr>)],
                rects = [\<lparr>rect_w = 12, rect_h = 12, rect_x = 0, rect_y = 0\<rparr>],
                totalW = 10, totalH = 10\<rparr>)"
  by code_simp

lemma example_world_pack: "stbrp_pack (example_world face) = row_pack"
  by (simp add: example_world_def)

theorem packer_stuck_below_25_witness:
  "stbrp_contract row_pack
   \<and> collect single_face [(65, 65)] =
       Some (Inr \<lparr>glyphs = [(3, \<lparr>rectIndex = Some 0, glyphIndex = 3, width = 10, height = 10,
                     leftBearing = 1, topBearing = 10, advance = 640\<rparr>)],
                  rects = [\<lparr>rect_w = 12, rect_h = 12, rect_x = 0, rect_y = 0\<rparr>],
                  totalW = 10, totalH = 10\<rparr>)
   \<and> main (example_world single_face) [''--font'', ''f.ttf'', ''--out'', ''o''] = None"
proof -
  let ?st = "\<lparr>glyphs = [(3, \<lparr>rectIndex = Some 0, glyphIndex = 3, width = 10, height = 10,
                     leftBearing = 1, topBearing = 10, advance = 640\<rparr>)],
                  rects = [\<lparr>rect_w = 12, rect_h = 12, rect_x = 0, rect_y = 0\<rparr>],
                  totalW = 10, totalH = 10\<rparr>"
  have s: "startup (example_world single_face) [''--font'', ''f.ttf'', ''--out'', ''o'']
     = Inr (\<lparr>fontPath = Some ''f.ttf'', outDir = Some ''o'', desiredSize = 16,
            cpRanges = [], axes = [], mono = False\<rparr>, single_face)"
    by (rule startup_example [OF parse_font_out]) simp_all
  have "pack_stage row_pack ?st = None"
    using packer_stuck_below_25 [OF row_pack_contract, of ?st] by simp
  then have "pipeline (example_world single_face) [''--font'', ''f.ttf'', ''--out'', ''o''] = None"
    by (simp add: pipeline_def s resolve_single collect_single example_world_pack)
  then show ?thesis
    using row_pack_contract collect_single by (simp add: main_def)
qed

section \<open>What collection computes\<close>

lemma first_seen_snoc:
  "first_seen (xs @ [a]) = (if a \<in> set xs then first_seen xs else first_seen xs @ [a])"
  by (simp add: first_seen_def)

lemma set_first_seen [simp]: "set (first_seen xs) = set xs"
  by (simp add: first_seen_def)

lemma distinct_first_seen [simp]: "distinct (first_seen xs)"
  by (simp add: first_seen_def)

lemma set_packed_order: "set (packed_order face gis) = {g \<in> set gis. has_area face g}"
  by (auto simp: packed_order_def)

lemma distinct_packed_order [simp]: "distinct (packed_order face gis)"
  by (simp add: packed_order_def)

lemma packed_order_snoc:
  "packed_order face (gis @ [g]) =
     (if g \<in> set gis \<or> \<not> has_area face g then packed_order face gis
      else packed_order face gis @ [g])"
  by (simp add: packed_order_def first_seen_snoc)

lemma position_append: "a \<in> set xs \<Longrightarrow> position a (xs @ ys) = position a xs"
  by (simp add: position_def)

lemma position_new: "a \<notin> set xs \<Longrightarrow> position a (xs @ [a]) = length xs"
  unfolding position_def by (induction xs) auto

lemma position_less: "a \<in> set xs \<Longrightarrow> position a xs < length xs"
  unfolding position_def by (induction xs) auto

lemma nth_position: "a \<in> set xs \<Longrightarrow> xs ! position a xs = a"
  unfolding position_def by (induction xs) auto

lemma position_nth: "distinct xs \<Longrightarrow> i < length xs \<Longrightarrow> position (xs ! i) xs = i"
  unfolding position_def
proof (induction xs arbitrary: i)
  case Nil
  then show ?case by simp
next
  case (Cons a xs)
  then show ?case by (cases i) auto
qed

lemma glyph_record_snoc:
  assumes "k \<in> set gis"
  shows "glyph_record face (packed_order face (gis @ [g])) k
       = glyph_record face (packed_order face gis) k"
proof (cases "has_area face k")
  case True
  then have "k \<in> set (packed_order face gis)" using assms by (simp add: set_packed_order)
  then show ?thesis by (simp add: glyph_record_def packed_order_snoc position_append)
next
  case False
  then show ?thesis by (simp add: glyph_record_def)
qed

lemma insort_key_fst_map:
  "insort_key fst (g, F g) (map (\<lambda>k. (k, F k)) xs) = map (\<lambda>k. (k, F k)) (insort g xs)"
  by (induction xs) auto

lemma collected_initial: "collected face [] \<lparr>glyphs = [], rects = [], totalW = 0, totalH = 0\<rparr>"
  by (simp add: collected_def packed_order_def first_seen_def)

lemma collected_keys: "collected face gis st \<Longrightarrow> fst ` set (glyphs st) = set gis"
  by (force simp: collected_def)

lemma collected_step:
  assumes inv: "collected face gis st" and step: "collect_cp face cp st = Inr st'"
  shows "collected face (gis @ [char_index face cp]) st'"
proof -
  let ?g = "char_index face cp"
  let ?order = "packed_order face gis"
  let ?order' = "packed_order face (gis @ [?g])"
  have keys: "map_contains ?g (glyphs st) = (?g \<in> set gis)"
    using collected_keys [OF inv] by (simp add: map_contains_def)
  show ?thesis
  proof (cases "?g \<in> set gis")
    case True
    then have "st' = st" using step keys by (simp add: collect_cp_def char_index_def)
    moreover have "?order' = ?order" using True by (simp add: packed_order_snoc)
    moreover have "set (gis @ [?g]) = set gis" using True by auto
    ultimately show ?thesis using inv by (simp add: collected_def)
  next
    case False
    have old: "map (\<lambda>k. (k, glyph_record face ?order k)) (sorted_list_of_set (set gis))
             = map (\<lambda>k. (k, glyph_record face ?order' k)) (sorted_list_of_set (set gis))"
      by (rule map_cong [OF refl]) (simp add: glyph_record_snoc)
    have ins: "sorted_list_of_set (set (gis @ [?g])) = insort ?g (sorted_list_of_set (set gis))"
      using False by (simp add: sorted_list_of_set_insert)
    have tab: "map_emplace ?g (glyph_record face ?order' ?g) (glyphs st)
             = map (\<lambda>k. (k, glyph_record face ?order' k)) (sorted_list_of_set (set (gis @ [?g])))"
      using inv unfolding collected_def map_emplace_def old ins
      by (simp add: insort_key_fst_map [where F = "glyph_record face ?order'"])
    have err: "fst (FT_Load_Glyph face ?g) = 0"
      using step keys False
      by (auto simp: collect_cp_def char_index_def Let_def split: prod.splits if_splits)
    have slot: "FT_Load_Glyph face ?g = (0, slot_of face ?g)"
      using err by (simp add: slot_of_def prod_eq_iff)
    show ?thesis
    proof (cases "has_area face ?g")
      case True
      have o: "?order' = ?order @ [?g]" using True False by (simp add: packed_order_snoc)
      have notin: "?g \<notin> set ?order" using False by (simp add: set_packed_order)
      have len: "length (rects st) = length ?order" using inv by (simp add: collected_def)
      have rec: "glyph_record face ?order' ?g =
        \<lparr>rectIndex = Some (length (rects st)), glyphIndex = ?g,
         width = bitmap_width (slot_of face ?g), height = bitmap_rows (slot_of face ?g),
         leftBearing = bitmap_left (slot_of face ?g), topBearing = bitmap_top (slot_of face ?g),
         advance = advance_x (slot_of face ?g)\<rparr>"
        using True notin by (simp add: glyph_record_def o position_new len)
      have st': "st' = \<lparr>glyphs = map_emplace ?g (glyph_record face ?order' ?g) (glyphs st),
                       rects = rects st @ [padded_rect face ?g],
                       totalW = totalW st + bitmap_width (slot_of face ?g),
                       totalH = totalH st + bitmap_rows (slot_of face ?g)\<rparr>"
        using step keys False True slot unfolding rec
        by (simp add: collect_cp_def Let_def has_area_def padded_rect_def)
          (simp add: char_index_def)
      show ?thesis
        unfolding st' collected_def using tab inv by (simp add: o collected_def)
    next
      case nor: False
      have o: "?order' = ?order" using nor by (simp add: packed_order_snoc)
      have rec: "glyph_record face ?order' ?g =
        \<lparr>rectIndex = None, glyphIndex = ?g,
         width = bitmap_width (slot_of face ?g), height = bitmap_rows (slot_of face ?g),
         leftBearing = bitmap_left (slot_of face ?g), topBearing = bitmap_top (slot_of face ?g),
         advance = advance_x (slot_of face ?g)\<rparr>"
        using nor by (simp add: glyph_record_def)
      have st': "st' = st\<lparr>glyphs := map_emplace ?g (glyph_record face ?order' ?g) (glyphs st)\<rparr>"
        using step keys False nor slot unfolding rec
        by (simp add: collect_cp_def Let_def has_area_def)
          (simp add: char_index_def)
      show ?thesis
        unfolding st' collected_def using tab inv by (simp add: o collected_def)
    qed
  qed
qed

lemma collected_steps:
  assumes "collected face gis st" "steps (collect_cp face) cps st = Inr st'"
  shows "collected face (gis @ map (char_index face) cps) st'"
  using assms
proof (induction cps arbitrary: gis st)
  case Nil
  then show ?case by simp
next
  case (Cons cp cps)
  from Cons.prems(2) obtain st1 where
    a: "collect_cp face cp st = Inr st1" and b: "steps (collect_cp face) cps st1 = Inr st'"
    by (auto split: sum.splits)
  have "collected face ((gis @ [char_index face cp]) @ map (char_index face) cps) st'"
    using collected_step [OF Cons.prems(1) a] b by (rule Cons.IH)
  then show ?case by simp
qed

lemma collect_collected:
  assumes "collect face ranges = Some (Inr st)"
  shows "collected face (map (char_index face) (all_cps ranges)) st"
proof -
  have "steps (collect_cp face) (all_cps ranges) \<lparr>glyphs = [], rects = [], totalW = 0, totalH = 0\<rparr>
        = Inr st"
    using assms unfolding collect_def by (rule for_ranges_steps)
  then show ?thesis using collected_steps [OF collected_initial] by fastforce
qed

lemma collected_entry:
  assumes "collected face gis st" "(k, g) \<in> set (glyphs st)"
  shows "k \<in> set gis \<and> g = glyph_record face (packed_order face gis) k"
  using assms by (auto simp: collected_def)

lemma collected_table_keys:
  "collected face gis st \<Longrightarrow> map fst (glyphs st) = sorted_list_of_set (set gis)"
  by (simp add: collected_def comp_def)

lemma glyph_record_fields [simp]:
  "glyphIndex (glyph_record face order k) = k"
  "width (glyph_record face order k) = bitmap_width (slot_of face k)"
  "height (glyph_record face order k) = bitmap_rows (slot_of face k)"
  "leftBearing (glyph_record face order k) = bitmap_left (slot_of face k)"
  "topBearing (glyph_record face order k) = bitmap_top (slot_of face k)"
  "advance (glyph_record face order k) = advance_x (slot_of face k)"
  "rectIndex (glyph_record face order k) = (if has_area face k then Some (position k order) else None)"
  by (simp_all add: glyph_record_def)

text \<open>
  C9 (as amended): after a successful collection the glyph table iterates by increasing
  glyph index; the rectangle list holds the padded rectangles of the glyphs with a
  non-zero area in the order in which those glyphs were first requested (range order,
  then increasing codepoint), not in the table's order; every record with a non-zero
  area holds the index of its own rectangle, a record without area holds none, and every
  index of the rectangle list belongs to exactly one record.
\<close>

theorem rects_in_order_of_first_request:
  assumes "collect face ranges = Some (Inr st)"
  shows "map fst (glyphs st) = sorted_list_of_set (set (requested_glyphs face ranges))
       \<and> rects st = map (padded_rect face) (packed_order face (requested_glyphs face ranges))
       \<and> (\<forall>p \<in> set (glyphs st).
            width (snd p) = bitmap_width (slot_of face (fst p)) \<and>
            height (snd p) = bitmap_rows (slot_of face (fst p)) \<and>
            rectIndex (snd p) =
              (if width (snd p) * height (snd p) \<noteq> 0
               then Some (position (fst p) (packed_order face (requested_glyphs face ranges)))
               else None))
       \<and> (\<forall>i < length (rects st).
            \<exists>!p. p \<in> set (glyphs st) \<and> rectIndex (snd p) = Some i)"
proof -
  let ?gis = "requested_glyphs face ranges"
  let ?order = "packed_order face ?gis"
  have c: "collected face ?gis st"
    using assms unfolding requested_glyphs_def by (rule collect_collected)
  have keys: "map fst (glyphs st) = sorted_list_of_set (set ?gis)"
    using c by (rule collected_table_keys)
  have rs: "rects st = map (padded_rect face) ?order"
    using c by (simp add: collected_def)
  have entries: "\<forall>p \<in> set (glyphs st).
            width (snd p) = bitmap_width (slot_of face (fst p)) \<and>
            height (snd p) = bitmap_rows (slot_of face (fst p)) \<and>
            rectIndex (snd p) =
              (if width (snd p) * height (snd p) \<noteq> 0
               then Some (position (fst p) ?order) else None)"
  proof
    fix p assume "p \<in> set (glyphs st)"
    then have "snd p = glyph_record face ?order (fst p)"
      using collected_entry [OF c, of "fst p" "snd p"] by simp
    then show "width (snd p) = bitmap_width (slot_of face (fst p)) \<and>
            height (snd p) = bitmap_rows (slot_of face (fst p)) \<and>
            rectIndex (snd p) =
              (if width (snd p) * height (snd p) \<noteq> 0
               then Some (position (fst p) ?order) else None)"
      by (simp add: has_area_def)
  qed
  have one: "\<forall>i < length (rects st). \<exists>!p. p \<in> set (glyphs st) \<and> rectIndex (snd p) = Some i"
  proof (intro allI impI)
    fix i assume "i < length (rects st)"
    then have i: "i < length ?order" by (simp add: rs)
    let ?k = "?order ! i"
    have kin: "?k \<in> set ?order" using i by simp
    then have kg: "?k \<in> set ?gis" and ka: "has_area face ?k"
      by (simp_all add: set_packed_order)
    have pos: "position ?k ?order = i" using i by (simp add: position_nth)
    have mem: "(?k, glyph_record face ?order ?k) \<in> set (glyphs st)"
      using c kg by (simp add: collected_def)
    show "\<exists>!p. p \<in> set (glyphs st) \<and> rectIndex (snd p) = Some i"
    proof (rule ex1I [where a = "(?k, glyph_record face ?order ?k)"])
      show "(?k, glyph_record face ?order ?k) \<in> set (glyphs st) \<and>
            rectIndex (snd (?k, glyph_record face ?order ?k)) = Some i"
        using mem ka pos by simp
    next
      fix p assume p: "p \<in> set (glyphs st) \<and> rectIndex (snd p) = Some i"
      then have e: "fst p \<in> set ?gis" "snd p = glyph_record face ?order (fst p)"
        using collected_entry [OF c, of "fst p" "snd p"] by simp_all
      then have a: "has_area face (fst p)" and q: "position (fst p) ?order = i"
        using p by (auto split: if_splits)
      have "fst p \<in> set ?order" using e(1) a by (simp add: set_packed_order)
      then have "?order ! i = fst p" using q nth_position by metis
      then show "p = (?k, glyph_record face ?order ?k)"
        using e(2) by (simp add: prod_eq_iff)
    qed
  qed
  show ?thesis using keys rs entries one by blast
qed

lemma collect_swap:
  "collect swap_face [(65, 66)] =
     Some (Inr \<lparr>glyphs =
        [(3, \<lparr>rectIndex = Some 1, glyphIndex = 3, width = 20, height = 20,
               leftBearing = 1, topBearing = 20, advance = 1344\<rparr>),
         (7, \<lparr>rectIndex = Some 0, glyphIndex = 7, width = 16, height = 16,
               leftBearing = 1, topBearing = 16, advance = 1088\<rparr>)],
        rects = [\<lparr>rect_w = 18, rect_h = 18, rect_x = 0, rect_y = 0\<rparr>,
                 \<lparr>rect_w = 22, rect_h = 22, rect_x = 0, rect_y = 0\<rparr>],
        totalW = 36, totalH = 36\<rparr>)"
  by code_simp

lemma padded_rect_swap:
  "padded_rect swap_face 3 = \<lparr>rect_w = 22, rect_h = 22, rect_x = 0, rect_y = 0\<rparr>"
  "padded_rect swap_face 7 = \<lparr>rect_w = 18, rect_h = 18, rect_x = 0, rect_y = 0\<rparr>"
  "has_area swap_face 3" "has_area swap_face 7"
  by (simp_all add: padded_rect_def has_area_def slot_of_def swap_face_def example_face_def
      example_slot_def RECT_PAD_def)

theorem rects_in_order_of_first_request_witness:
  "collect swap_face [(65, 66)] =
     Some (Inr \<lparr>glyphs =
        [(3, \<lparr>rectIndex = Some 1, glyphIndex = 3, width = 20, height = 20,
               leftBearing = 1, topBearing = 20, advance = 1344\<rparr>),
         (7, \<lparr>rectIndex = Some 0, glyphIndex = 7, width = 16, height = 16,
               leftBearing = 1, topBearing = 16, advance = 1088\<rparr>)],
        rects = [\<lparr>rect_w = 18, rect_h = 18, rect_x = 0, rect_y = 0\<rparr>,
                 \<lparr>rect_w = 22, rect_h = 22, rect_x = 0, rect_y = 0\<rparr>],
        totalW = 36, totalH = 36\<rparr>)
   \<and> sorted_list_of_set (set (requested_glyphs swap_face [(65, 66)])) = [3, 7]
   \<and> map (padded_rect swap_face) (packed_order swap_face (requested_glyphs swap_face [(65, 66)]))
       = [\<lparr>rect_w = 18, rect_h = 18, rect_x = 0, rect_y = 0\<rparr>,
          \<lparr>rect_w = 22, rect_h = 22, rect_x = 0, rect_y = 0\<rparr>]"
  using rects_in_order_of_first_request [OF collect_swap] collect_swap by simp

text \<open>
  C9 as stated fails: the rectangle list is not the list of the table's records with an
  area in the table's order. In the font \<open>swap_face\<close> the codepoint \<open>A\<close> requests glyph 7
  before \<open>B\<close> requests glyph 3, so the rectangle of glyph 7 comes first.
\<close>

theorem rects_not_in_table_order:
  "\<not> (\<forall>face ranges st. collect face ranges = Some (Inr st) \<longrightarrow>
        rects st = map (padded_rect face) (filter (has_area face) (map fst (glyphs st))))"
proof
  assume "\<forall>face ranges st. collect face ranges = Some (Inr st) \<longrightarrow>
        rects st = map (padded_rect face) (filter (has_area face) (map fst (glyphs st)))"
  then show False using collect_swap by (fastforce simp: padded_rect_swap)
qed

section \<open>Compositing and the final placements\<close>

lemma composite_glyph_result:
  "composite_glyph face mn glyph rs = Inr rs' \<Longrightarrow> rs' = strip_glyph rs (k, glyph)"
  by (auto simp: composite_glyph_def strip_glyph_def Let_def
      split: option.splits prod.splits if_splits)

lemma composite_result:
  "composite face mn table rs = Inr rs' \<Longrightarrow> rs' = foldl strip_glyph rs table"
proof (induction table arbitrary: rs)
  case Nil
  then show ?case by simp
next
  case (Cons p ps)
  from Cons.prems obtain rs1 where
    a: "composite_glyph face mn (snd p) rs = Inr rs1" and b: "composite face mn ps rs1 = Inr rs'"
    by (auto split: sum.splits)
  have "rs1 = strip_glyph rs p" using composite_glyph_result [OF a, of "fst p"] by simp
  then show ?case using Cons.IH [OF b] by simp
qed

lemma rect_indices_Cons:
  "rect_indices (p # ps) =
     (case rectIndex (snd p) of None \<Rightarrow> rect_indices ps | Some i \<Rightarrow> i # rect_indices ps)"
  by (simp add: rect_indices_def List.map_filter_simps split: option.splits)

lemma foldl_strip_glyph:
  assumes "distinct (rect_indices table)"
  shows "length (foldl strip_glyph rs table) = length rs
       \<and> (\<forall>j < length rs. foldl strip_glyph rs table ! j =
            (if j \<in> set (rect_indices table) then remove_padding (rs ! j) else rs ! j))"
  using assms
proof (induction table arbitrary: rs)
  case Nil
  then show ?case by (simp add: rect_indices_def List.map_filter_simps)
next
  case (Cons p ps)
  show ?case
  proof (cases "rectIndex (snd p)")
    case None
    then have "distinct (rect_indices ps)" using Cons.prems by (simp add: rect_indices_Cons)
    then show ?thesis using Cons.IH [of rs] None
      by (simp add: rect_indices_Cons strip_glyph_def)
  next
    case (Some ri)
    then have d: "distinct (rect_indices ps)" and n: "ri \<notin> set (rect_indices ps)"
      using Cons.prems by (simp_all add: rect_indices_Cons)
    let ?rs1 = "rs[ri := remove_padding (rs ! ri)]"
    have s: "foldl strip_glyph rs (p # ps) = foldl strip_glyph ?rs1 ps"
      using Some by (simp add: strip_glyph_def)
    have ih: "length (foldl strip_glyph ?rs1 ps) = length ?rs1
       \<and> (\<forall>j < length ?rs1. foldl strip_glyph ?rs1 ps ! j =
            (if j \<in> set (rect_indices ps) then remove_padding (?rs1 ! j) else ?rs1 ! j))"
      by (rule Cons.IH [OF d])
    have len: "length (foldl strip_glyph ?rs1 ps) = length rs" using ih by simp
    have nth: "foldl strip_glyph ?rs1 ps ! j =
            (if j \<in> set (rect_indices (p # ps)) then remove_padding (rs ! j) else rs ! j)"
      if j: "j < length rs" for j
    proof (cases "j = ri")
      case True
      then have "foldl strip_glyph ?rs1 ps ! j = ?rs1 ! ri" using ih j n by simp
      also have "\<dots> = remove_padding (rs ! ri)" using j True by simp
      finally show ?thesis using True Some by (simp add: rect_indices_Cons)
    next
      case False
      then have "?rs1 ! j = rs ! j" by simp
      moreover have "(j \<in> set (rect_indices (p # ps))) = (j \<in> set (rect_indices ps))"
        using False Some by (auto simp: rect_indices_Cons)
      ultimately show ?thesis using ih j by simp
    qed
    show ?thesis unfolding s using len nth by blast
  qed
qed

lemma strip_all:
  assumes "distinct (rect_indices table)" "set (rect_indices table) = {..<length rs}"
  shows "foldl strip_glyph rs table = map remove_padding rs"
  using foldl_strip_glyph [OF assms(1), of rs] assms(2)
  by (intro nth_equalityI) auto

lemma map_filter_map: "List.map_filter f (map g xs) = List.map_filter (f \<circ> g) xs"
  by (simp add: List.map_filter_def filter_map comp_def)

lemma map_filter_if:
  "List.map_filter (\<lambda>k. if P k then Some (f k) else None) xs = map f (filter P xs)"
  by (induction xs) (auto simp: List.map_filter_simps)

lemma collected_rect_indices:
  assumes "collected face gis st"
  shows "rect_indices (glyphs st) =
           map (\<lambda>k. position k (packed_order face gis))
               (filter (has_area face) (sorted_list_of_set (set gis)))"
proof -
  have "rect_indices (glyphs st) =
    List.map_filter (\<lambda>k. if has_area face k then Some (position k (packed_order face gis)) else None)
      (sorted_list_of_set (set gis))"
    using assms by (simp add: collected_def rect_indices_def map_filter_map comp_def)
  also have "\<dots> = map (\<lambda>k. position k (packed_order face gis))
               (filter (has_area face) (sorted_list_of_set (set gis)))"
    by (rule map_filter_if)
  finally show ?thesis .
qed

lemma position_inj: "a \<in> set xs \<Longrightarrow> b \<in> set xs \<Longrightarrow> position a xs = position b xs \<Longrightarrow> a = b"
  by (metis nth_position)

lemma collected_indices_distinct:
  assumes "collected face gis st"
  shows "distinct (rect_indices (glyphs st))"
proof -
  let ?order = "packed_order face gis"
  let ?ks = "filter (has_area face) (sorted_list_of_set (set gis))"
  have "set ?ks = set ?order" by (auto simp: set_packed_order)
  then have "inj_on (\<lambda>k. position k ?order) (set ?ks)"
    by (auto intro!: inj_onI dest: position_inj)
  moreover have "distinct ?ks" by simp
  ultimately show ?thesis
    unfolding collected_rect_indices [OF assms] by (simp add: distinct_map)
qed

lemma collected_indices_set:
  assumes "collected face gis st"
  shows "set (rect_indices (glyphs st)) = {..<length (rects st)}"
proof -
  let ?order = "packed_order face gis"
  let ?ks = "filter (has_area face) (sorted_list_of_set (set gis))"
  have ks: "set ?ks = set ?order" by (auto simp: set_packed_order)
  have len: "length (rects st) = length ?order" using assms by (simp add: collected_def)
  have "(\<lambda>k. position k ?order) ` set ?order = {..<length ?order}"
  proof (intro equalityI subsetI)
    fix i assume "i \<in> (\<lambda>k. position k ?order) ` set ?order"
    then show "i \<in> {..<length ?order}" by (auto simp: position_less)
  next
    fix i assume "i \<in> {..<length ?order}"
    then have i: "i < length ?order" by simp
    then have "position (?order ! i) ?order = i" by (simp add: position_nth)
    then show "i \<in> (\<lambda>k. position k ?order) ` set ?order"
      using i by (metis imageI nth_mem)
  qed
  moreover have "set (rect_indices (glyphs st)) = (\<lambda>k. position k ?order) ` set ?ks"
    unfolding collected_rect_indices [OF assms] by (rule set_map)
  ultimately show ?thesis unfolding ks len by simp
qed

lemma composite_collected:
  assumes "collected face gis st" "length packed = length (rects st)"
    "composite face' mn (glyphs st) packed = Inr final"
  shows "final = map remove_padding packed"
proof -
  have "final = foldl strip_glyph packed (glyphs st)" using assms(3) by (rule composite_result)
  also have "\<dots> = map remove_padding packed"
    using collected_indices_distinct [OF assms(1)] collected_indices_set [OF assms(1)] assms(2)
    by (intro strip_all) simp_all
  finally show ?thesis .
qed

section \<open>The packing stage\<close>

lemma contract_at:
  assumes "stbrp_contract pack" "pack targetW targetH num_nodes rs = (ok, rs')"
  shows "map rect_w rs' = map rect_w rs" "map rect_h rs' = map rect_h rs"
    "ok \<Longrightarrow> list_all (\<lambda>r. 0 \<le> rect_x r \<and> 0 \<le> rect_y r \<and>
          rect_x r + rect_w r \<le> targetW \<and> rect_y r + rect_h r \<le> targetH) rs'"
proof -
  have "map rect_w (snd (pack targetW targetH num_nodes rs)) = map rect_w rs \<and>
        map rect_h (snd (pack targetW targetH num_nodes rs)) = map rect_h rs \<and>
        (fst (pack targetW targetH num_nodes rs) \<longrightarrow>
           list_all (\<lambda>r. 0 \<le> rect_x r \<and> 0 \<le> rect_y r \<and>
                         rect_x r + rect_w r \<le> targetW \<and> rect_y r + rect_h r \<le> targetH)
             (snd (pack targetW targetH num_nodes rs)))"
    using assms(1) unfolding stbrp_contract_def by blast
  then show "map rect_w rs' = map rect_w rs" "map rect_h rs' = map rect_h rs"
    "ok \<Longrightarrow> list_all (\<lambda>r. 0 \<le> rect_x r \<and> 0 \<le> rect_y r \<and>
          rect_x r + rect_w r \<le> targetW \<and> rect_y r + rect_h r \<le> targetH) rs'"
    using assms(2) by simp_all
qed

lemma pack_loop_result_aux:
  assumes "pack_loop pack targetW targetH num_nodes rs = Some res"
  shows "stbrp_contract pack \<longrightarrow>
         (\<forall>rs'. res = Inr rs' \<longrightarrow> length rs' = length rs \<and>
                list_all (\<lambda>r. 0 \<le> rect_x r \<and> 0 \<le> rect_y r) rs')"
  using assms
proof (induction rule: pack_loop.raw_induct [rotated 1, consumes 1])
  case (1 pack_loop' pack targetW targetH num_nodes rs res)
  show ?case
  proof (intro impI allI)
    fix rs' assume c: "stbrp_contract pack" and r: "res = Inr rs'"
    obtain ok rs1 where p: "pack targetW targetH num_nodes rs = (ok, rs1)"
      by (cases "pack targetW targetH num_nodes rs")
    have "map rect_w rs1 = map rect_w rs" by (rule contract_at(1) [OF c p])
    then have len: "length rs1 = length rs" by (rule map_eq_imp_length_eq)
    show "length rs' = length rs \<and> list_all (\<lambda>r. 0 \<le> rect_x r \<and> 0 \<le> rect_y r) rs'"
    proof (cases ok)
      case True
      then have e: "rs' = rs1" using 1(2) p r by simp
      have "list_all (\<lambda>r. 0 \<le> rect_x r \<and> 0 \<le> rect_y r \<and>
          rect_x r + rect_w r \<le> targetW \<and> rect_y r + rect_h r \<le> targetH) rs1"
        by (rule contract_at(3) [OF c p True])
      then show ?thesis using e len by (auto simp: list_all_iff)
    next
      case False
      then have "pack_loop' pack (grow targetW) (grow targetH) (nat (grow targetW)) rs1 = Some res"
        using 1(2) p r by (auto simp: Let_def split: if_splits)
      from 1(1) [OF this] c r
      have "length rs' = length rs1 \<and> list_all (\<lambda>r. 0 \<le> rect_x r \<and> 0 \<le> rect_y r) rs'"
        by blast
      then show ?thesis using len by simp
    qed
  qed
qed

lemma atlas_size_Max:
  "atlas_size rs (a, b) =
     (Max (insert a ((\<lambda>r. rect_x r + rect_w r) ` set rs)),
      Max (insert b ((\<lambda>r. rect_y r + rect_h r) ` set rs)))"
proof (induction rs arbitrary: a b)
  case Nil
  then show ?case by simp
next
  case (Cons r rs)
  have m: "Max (insert (max v u) S) = Max (insert v (insert u S))" if "finite S" for u v :: int and S
  proof (cases "S = {}")
    case True
    then show ?thesis by simp
  next
    case False
    then show ?thesis using that by (simp add: max.assoc)
  qed
  have "(if a < rect_x r + rect_w r then rect_x r + rect_w r else a) = max a (rect_x r + rect_w r)"
       "(if b < rect_y r + rect_h r then rect_y r + rect_h r else b) = max b (rect_y r + rect_h r)"
    by (simp_all add: max_def)
  then show ?case by (simp add: Cons.IH m)
qed

section \<open>The atlas and the final placements\<close>

lemma pipeline_success:
  assumes "pipeline world args = Some (Inr a)"
  shows "\<exists>c face st packed.
           startup world args = Inr (c, face) \<and>
           resolve_ranges face (cpRanges c) = Some (Inr (art_ranges a)) \<and>
           collect face (art_ranges a) = Some (Inr st) \<and>
           pack_stage (stbrp_pack world) st = Some (Inr (packed, atlasW a, atlasH a)) \<and>
           composite face (mono c) (glyphs st) packed = Inr (art_rects a) \<and>
           art_face a = face \<and> art_glyphs a = glyphs st \<and> art_outDir a = the (outDir c)"
proof -
  obtain c face where s: "startup world args = Inr (c, face)"
    using assms by (auto simp: pipeline_def split: sum.splits)
  obtain ranges where r: "resolve_ranges face (cpRanges c) = Some (Inr ranges)"
    using assms s by (auto simp: pipeline_def split: sum.splits option.splits)
  obtain st where co: "collect face ranges = Some (Inr st)"
    using assms s r by (auto simp: pipeline_def split: sum.splits option.splits)
  obtain packed aw ah where p: "pack_stage (stbrp_pack world) st = Some (Inr (packed, aw, ah))"
    using assms s r co by (auto simp: pipeline_def split: sum.splits option.splits)
  obtain final where f: "composite face (mono c) (glyphs st) packed = Inr final"
    using assms s r co p by (auto simp: pipeline_def split: sum.splits option.splits)
  have "a = \<lparr>art_face = face, art_outDir = the (outDir c), art_ranges = ranges,
             art_glyphs = glyphs st, art_rects = final, atlasW = aw, atlasH = ah\<rparr>"
    using assms s r co p f by (simp add: pipeline_def)
  then show ?thesis using s r co p f by auto
qed

lemma pack_stage_success:
  assumes "pack_stage pack st = Some (Inr (packed, aw, ah))"
  shows "\<exists>targetW targetH num_nodes.
           pack_loop pack targetW targetH num_nodes (rects st) = Some (Inr packed)"
    and "(aw, ah) = atlas_size packed (0, 0)"
  using assms by (auto simp: pack_stage_def Let_def split: option.splits sum.splits)

lemma remove_padding_fields [simp]:
  "rect_x (remove_padding r) = rect_x r + 1"
  "rect_y (remove_padding r) = rect_y r + 1"
  "rect_w (remove_padding r) = rect_w r - 2"
  "rect_h (remove_padding r) = rect_h r - 2"
  by (simp_all add: remove_padding_def RECT_PAD_def)

lemma Max_padded:
  fixes f g :: "'a \<Rightarrow> int"
  assumes "finite A" "A \<noteq> {}" "\<forall>r\<in>A. 0 \<le> f r" "\<forall>r\<in>A. g r = f r - 1"
  shows "Max (insert 0 (f ` A)) = Max (g ` A) + 1"
proof -
  have fin: "finite (f ` A)" and ne: "f ` A \<noteq> {}" using assms by simp_all
  have "0 \<le> Max (f ` A)"
    using assms fin ne by (meson Max_ge_iff ex_in_conv imageI)
  then have "Max (insert 0 (f ` A)) = Max (f ` A)"
    using fin ne by (simp add: max_def)
  moreover have "g ` A = (\<lambda>v. v - 1) ` (f ` A)"
    using assms(4) by (force simp: image_iff)
  moreover have "Max ((\<lambda>v. v - 1) ` (f ` A)) = Max (f ` A) - 1"
    using fin ne by (intro mono_Max_commute [symmetric] monoI) simp_all
  ultimately show ?thesis by simp
qed

text \<open>
  C4 (as amended): when the primitive keeps to its contract and the run reaches the
  output stage with at least one rectangle, none of negative size, the atlas is one
  pixel wider and one pixel higher than the bounding box of the final placements (those
  left after the padding is taken off): the bounding box is computed from the padded
  rectangles, before the padding is removed. No final placement reaches the atlas's
  right or bottom edge.
\<close>

theorem atlas_is_padded_bounding_box:
  assumes "stbrp_contract (stbrp_pack world)"
    and "pipeline world args = Some (Inr a)"
    and "art_rects a \<noteq> []"
    and "\<forall>r\<in>set (art_rects a). 0 \<le> rect_w r \<and> 0 \<le> rect_h r"
  shows "atlasW a = Max ((\<lambda>r. rect_x r + rect_w r) ` set (art_rects a)) + 1
       \<and> atlasH a = Max ((\<lambda>r. rect_y r + rect_h r) ` set (art_rects a)) + 1
       \<and> (\<forall>r\<in>set (art_rects a).
            rect_x r + rect_w r < atlasW a \<and> rect_y r + rect_h r < atlasH a)"
proof -
  obtain c :: config and face st packed where
    co: "collect face (art_ranges a) = Some (Inr st)" and
    p: "pack_stage (stbrp_pack world) st = Some (Inr (packed, atlasW a, atlasH a))" and
    f: "composite face (mono c) (glyphs st) packed = Inr (art_rects a)"
    using pipeline_success [OF assms(2)] by blast
  obtain targetW targetH num_nodes where
    l: "pack_loop (stbrp_pack world) targetW targetH num_nodes (rects st) = Some (Inr packed)"
    using pack_stage_success(1) [OF p] by blast
  have sz: "(atlasW a, atlasH a) = atlas_size packed (0, 0)"
    by (rule pack_stage_success(2) [OF p])
  have len: "length packed = length (rects st)"
    and pos: "list_all (\<lambda>r. 0 \<le> rect_x r \<and> 0 \<le> rect_y r) packed"
    using pack_loop_result_aux [OF l] assms(1) by simp_all
  have final: "art_rects a = map remove_padding packed"
    using collect_collected [OF co] len f by (rule composite_collected)
  have ne: "set packed \<noteq> {}" using assms(3) final by auto
  have w: "\<forall>r\<in>set packed. 0 \<le> rect_x r + rect_w r"
    using pos assms(4) unfolding final by (fastforce simp: list_all_iff)
  have h: "\<forall>r\<in>set packed. 0 \<le> rect_y r + rect_h r"
    using pos assms(4) unfolding final by (fastforce simp: list_all_iff)
  have img: "(\<lambda>r. rect_x r + rect_w r) ` set (art_rects a)
           = (\<lambda>r. rect_x (remove_padding r) + rect_w (remove_padding r)) ` set packed"
       "(\<lambda>r. rect_y r + rect_h r) ` set (art_rects a)
           = (\<lambda>r. rect_y (remove_padding r) + rect_h (remove_padding r)) ` set packed"
    unfolding final by (simp_all add: image_image del: remove_padding_fields)
  have aw: "atlasW a = Max ((\<lambda>r. rect_x r + rect_w r) ` set (art_rects a)) + 1"
    unfolding img using sz Max_padded [OF _ ne w, of "\<lambda>r. rect_x (remove_padding r) + rect_w (remove_padding r)"]
    by (simp add: atlas_size_Max)
  have ah: "atlasH a = Max ((\<lambda>r. rect_y r + rect_h r) ` set (art_rects a)) + 1"
    unfolding img using sz Max_padded [OF _ ne h, of "\<lambda>r. rect_y (remove_padding r) + rect_h (remove_padding r)"]
    by (simp add: atlas_size_Max)
  have "rect_x r + rect_w r < atlasW a \<and> rect_y r + rect_h r < atlasH a"
    if "r \<in> set (art_rects a)" for r
  proof -
    have "rect_x r + rect_w r \<le> Max ((\<lambda>r. rect_x r + rect_w r) ` set (art_rects a))"
      using that by (intro Max_ge) auto
    moreover have "rect_y r + rect_h r \<le> Max ((\<lambda>r. rect_y r + rect_h r) ` set (art_rects a))"
      using that by (intro Max_ge) auto
    ultimately show ?thesis using aw ah by simp
  qed
  then show ?thesis using aw ah by blast
qed

section \<open>The example run\<close>

lemma parse_abc: "parse_args initial_config abc_args = Inr abc_config"
  by code_simp

lemma startup_abc: "startup (example_world abc_face) abc_args = Inr (abc_config, abc_face)"
  by (rule startup_example [OF parse_abc]) (simp_all add: abc_config_def)

lemma collect_abc: "collect abc_face [(65, 67)] = Some (Inr abc_state)"
  by code_simp

lemma pack_abc: "pack_stage row_pack abc_state = Some (Inr (abc_packed, 36, 18))"
  by code_simp

lemma composite_abc_value:
  "composite abc_face False (glyphs abc_state) abc_packed =
    Inr [\<lparr>rect_w = 16, rect_h = 16, rect_x = 1, rect_y = 1\<rparr>,
         \<lparr>rect_w = 16, rect_h = 16, rect_x = 19, rect_y = 1\<rparr>]"
  by code_simp

lemma composite_abc:
  "composite abc_face False (glyphs abc_state) abc_packed = Inr abc_final"
  unfolding abc_final_def by (rule composite_abc_value)

lemma pipeline_example:
  assumes "startup world args = Inr (c, face)" "cpRanges c \<noteq> []"
    "collect face (cpRanges c) = Some (Inr st)"
    "pack_stage (stbrp_pack world) st = Some (Inr (packed, aw, ah))"
    "composite face (mono c) (glyphs st) packed = Inr final"
  shows "pipeline world args =
     Some (Inr \<lparr>art_face = face, art_outDir = the (outDir c), art_ranges = cpRanges c,
                art_glyphs = glyphs st, art_rects = final, atlasW = aw, atlasH = ah\<rparr>)"
  using assms by (simp add: pipeline_def resolve_ranges_def)

lemma pipeline_abc: "pipeline (example_world abc_face) abc_args = Some (Inr abc_artefacts)"
proof -
  have n: "cpRanges abc_config \<noteq> []" by (simp add: abc_config_def)
  have c: "collect abc_face (cpRanges abc_config) = Some (Inr abc_state)"
    by (simp add: abc_config_def collect_abc)
  have p: "pack_stage (stbrp_pack (example_world abc_face)) abc_state
             = Some (Inr (abc_packed, 36, 18))"
    by (simp add: example_world_pack pack_abc)
  have f: "composite abc_face (mono abc_config) (glyphs abc_state) abc_packed = Inr abc_final"
    by (simp add: abc_config_def composite_abc)
  show ?thesis
    using pipeline_example [OF startup_abc n c p f]
    by (simp add: abc_artefacts_def abc_config_def)
qed

theorem atlas_is_padded_bounding_box_witness:
  "stbrp_contract (stbrp_pack (example_world abc_face))
   \<and> pipeline (example_world abc_face) abc_args = Some (Inr abc_artefacts)
   \<and> art_rects abc_artefacts = [\<lparr>rect_w = 16, rect_h = 16, rect_x = 1, rect_y = 1\<rparr>,
                                 \<lparr>rect_w = 16, rect_h = 16, rect_x = 19, rect_y = 1\<rparr>]
   \<and> atlasW abc_artefacts = 36 \<and> atlasH abc_artefacts = 18
   \<and> atlasW abc_artefacts = Max ((\<lambda>r. rect_x r + rect_w r) ` set (art_rects abc_artefacts)) + 1
   \<and> atlasH abc_artefacts = Max ((\<lambda>r. rect_y r + rect_h r) ` set (art_rects abc_artefacts)) + 1"
proof -
  have c: "stbrp_contract (stbrp_pack (example_world abc_face))"
    by (simp add: example_world_pack row_pack_contract)
  have n: "art_rects abc_artefacts \<noteq> []" by (simp add: abc_artefacts_def abc_final_def)
  have s: "\<forall>r\<in>set (art_rects abc_artefacts). 0 \<le> rect_w r \<and> 0 \<le> rect_h r"
    by (simp add: abc_artefacts_def abc_final_def)
  show ?thesis
    using atlas_is_padded_bounding_box [OF c pipeline_abc n s] c pipeline_abc
    by (simp add: abc_artefacts_def abc_final_def)
qed

text \<open>
  C4 as stated fails: in the example run the final placements end at column 35 and row
  17, and the atlas is 36 by 18.
\<close>

theorem atlas_is_not_tight:
  "\<not> (\<forall>world args a. pipeline world args = Some (Inr a) \<longrightarrow> art_rects a \<noteq> [] \<longrightarrow>
         atlasW a = Max ((\<lambda>r. rect_x r + rect_w r) ` set (art_rects a))
       \<and> atlasH a = Max ((\<lambda>r. rect_y r + rect_h r) ` set (art_rects a)))"
proof
  assume "\<forall>world args a. pipeline world args = Some (Inr a) \<longrightarrow> art_rects a \<noteq> [] \<longrightarrow>
         atlasW a = Max ((\<lambda>r. rect_x r + rect_w r) ` set (art_rects a))
       \<and> atlasH a = Max ((\<lambda>r. rect_y r + rect_h r) ` set (art_rects a))"
  then have "art_rects abc_artefacts \<noteq> [] \<longrightarrow>
         atlasW abc_artefacts = Max ((\<lambda>r. rect_x r + rect_w r) ` set (art_rects abc_artefacts))"
    using pipeline_abc by blast
  then show False by (simp add: abc_artefacts_def abc_final_def)
qed

section \<open>The output files\<close>

lemma main_failed_stage:
  assumes "pipeline world args = Some (Inl e)" "main world args = Some out"
  shows "files out = [] \<and> ending out \<noteq> Exit 0"
  using assms by (cases e) (auto simp: main_def)

lemma main_output_stage:
  assumes "pipeline world args = Some (Inr a)"
  shows "main world args = write_outputs world a"
  using assms by (simp add: main_def)

lemma write_outputs_cases:
  assumes "write_outputs world a = Some out"
  shows "(create_directory_throws world (art_outDir a) \<and>
            ending out = Uncaught_exception \<and> files out = [])
       \<or> (\<not> create_directory_throws world (art_outDir a) \<and>
            png_image_write_to_file world (path_join (art_outDir a) ''atlas.png'')
              (word_of_int (atlasW a)) (word_of_int (atlasH a)) \<noteq> 1 \<and>
            ending out = Exit (- 1) \<and> files out = [])
       \<or> (\<not> create_directory_throws world (art_outDir a) \<and>
            png_image_write_to_file world (path_join (art_outDir a) ''atlas.png'')
              (word_of_int (atlasW a)) (word_of_int (atlasH a)) = 1 \<and>
            \<not> fstream_open world (path_join (art_outDir a) ''map.json'') \<and>
            ending out = Exit (- 1) \<and>
            diagnostic out = Some (Failed_to_write_map (path_join (art_outDir a) ''map.json'')) \<and>
            files out = [(path_join (art_outDir a) ''atlas.png'', PNG_image (atlasW a) (atlasH a))])
       \<or> (\<not> create_directory_throws world (art_outDir a) \<and>
            png_image_write_to_file world (path_join (art_outDir a) ''atlas.png'')
              (word_of_int (atlasW a)) (word_of_int (atlasH a)) = 1 \<and>
            fstream_open world (path_join (art_outDir a) ''map.json'') \<and>
            ending out = Exit 0 \<and>
            (\<exists>ts. files out =
               [(path_join (art_outDir a) ''atlas.png'', PNG_image (atlasW a) (atlasH a)),
                (path_join (art_outDir a) ''map.json'', Text (render ts))]))"
  using assms
  by (auto simp: write_outputs_def Let_def split: if_splits option.splits)

text \<open>
  C2 (as amended): a run that returns ends in one of these ways. A stage before the
  output stage failed: the status is not 0 and there is no output file. Otherwise the
  stages succeeded and the output stage decides: when the directory cannot be created
  the run ends by an uncaught exception with no output file; when the image cannot be
  written the status is \<open>-1\<close> and there is no output file; when the image was written and
  the stream on the sidecar does not open, the status is \<open>-1\<close>, the diagnostic names the
  sidecar's path, and the image is left without the sidecar; when both succeed the
  status is 0 and both files exist, the image written first.
\<close>

theorem outputs_of_a_run:
  assumes "main world args = Some out"
  shows "((\<exists>e. pipeline world args = Some (Inl e)) \<and> ending out \<noteq> Exit 0 \<and> files out = [])
       \<or> (\<exists>a. pipeline world args = Some (Inr a) \<and>
            ((create_directory_throws world (art_outDir a) \<and>
                ending out = Uncaught_exception \<and> files out = [])
             \<or> (\<not> create_directory_throws world (art_outDir a) \<and>
                png_image_write_to_file world (path_join (art_outDir a) ''atlas.png'')
                  (word_of_int (atlasW a)) (word_of_int (atlasH a)) \<noteq> 1 \<and>
                ending out = Exit (- 1) \<and> files out = [])
             \<or> (\<not> create_directory_throws world (art_outDir a) \<and>
                png_image_write_to_file world (path_join (art_outDir a) ''atlas.png'')
                  (word_of_int (atlasW a)) (word_of_int (atlasH a)) = 1 \<and>
                \<not> fstream_open world (path_join (art_outDir a) ''map.json'') \<and>
                ending out = Exit (- 1) \<and>
                diagnostic out =
                  Some (Failed_to_write_map (path_join (art_outDir a) ''map.json'')) \<and>
                files out =
                  [(path_join (art_outDir a) ''atlas.png'', PNG_image (atlasW a) (atlasH a))])
             \<or> (\<not> create_directory_throws world (art_outDir a) \<and>
                png_image_write_to_file world (path_join (art_outDir a) ''atlas.png'')
                  (word_of_int (atlasW a)) (word_of_int (atlasH a)) = 1 \<and>
                fstream_open world (path_join (art_outDir a) ''map.json'') \<and>
                ending out = Exit 0 \<and>
                (\<exists>ts. files out =
                   [(path_join (art_outDir a) ''atlas.png'', PNG_image (atlasW a) (atlasH a)),
                    (path_join (art_outDir a) ''map.json'', Text (render ts))]))))"
proof (cases "pipeline world args")
  case None
  then show ?thesis using assms by (simp add: main_def)
next
  case (Some res)
  show ?thesis
  proof (cases res)
    case (Inl e)
    then show ?thesis using main_failed_stage [of world args e out] Some assms by auto
  next
    case (Inr a)
    then have p: "pipeline world args = Some (Inr a)" using Some by simp
    then have "write_outputs world a = Some out" using assms by (simp add: main_output_stage)
    then show ?thesis using write_outputs_cases [of world a out] p by blast
  qed
qed

lemma pipeline_abc_in:
  assumes "startup world abc_args = Inr (abc_config, abc_face)" "stbrp_pack world = row_pack"
  shows "pipeline world abc_args = Some (Inr abc_artefacts)"
proof -
  have n: "cpRanges abc_config \<noteq> []" by (simp add: abc_config_def)
  have c: "collect abc_face (cpRanges abc_config) = Some (Inr abc_state)"
    by (simp add: abc_config_def collect_abc)
  have p: "pack_stage (stbrp_pack world) abc_state = Some (Inr (abc_packed, 36, 18))"
    by (simp add: assms(2) pack_abc)
  have f: "composite abc_face (mono abc_config) (glyphs abc_state) abc_packed = Inr abc_final"
    by (simp add: abc_config_def composite_abc)
  show ?thesis
    using pipeline_example [OF assms(1) n c p f]
    by (simp add: abc_artefacts_def abc_config_def)
qed

lemma startup_closed_map:
  "startup (closed_map_world abc_face) abc_args = Inr (abc_config, abc_face)"
  using parse_abc
  by (simp add: startup_def closed_map_world_def example_world_def apply_axes_def abc_config_def)

lemma pipeline_closed_map:
  "pipeline (closed_map_world abc_face) abc_args = Some (Inr abc_artefacts)"
  by (rule pipeline_abc_in [OF startup_closed_map])
    (simp add: closed_map_world_def example_world_def)

lemma main_closed_map:
  "main (closed_map_world abc_face) abc_args =
     Some \<lparr>ending = Exit (- 1), diagnostic = Some (Failed_to_write_map ''o/map.json''),
           files = [(''o/atlas.png'', PNG_image 36 18)]\<rparr>"
  using pipeline_closed_map
  by (simp add: main_def write_outputs_def closed_map_world_def example_world_def
      abc_artefacts_def path_join_def)

text \<open>
  C2 as stated fails: in the world where the sidecar's stream does not open, the example
  run ends with status \<open>-1\<close> and leaves \<^verbatim>\<open>o/atlas.png\<close> alone.
\<close>

theorem image_left_without_sidecar:
  "\<not> (\<forall>world args out. main world args = Some out \<longrightarrow>
        (ending out \<noteq> Exit 0 \<longrightarrow> files out = []) \<and> length (files out) \<noteq> 1)"
proof
  assume "\<forall>world args out. main world args = Some out \<longrightarrow>
        (ending out \<noteq> Exit 0 \<longrightarrow> files out = []) \<and> length (files out) \<noteq> 1"
  then show False using main_closed_map by fastforce
qed

theorem outputs_of_a_run_witness:
  "main (closed_map_world abc_face) abc_args =
     Some \<lparr>ending = Exit (- 1), diagnostic = Some (Failed_to_write_map ''o/map.json''),
           files = [(''o/atlas.png'', PNG_image 36 18)]\<rparr>
   \<and> pipeline (closed_map_world abc_face) abc_args = Some (Inr abc_artefacts)
   \<and> \<not> fstream_open (closed_map_world abc_face) (path_join (art_outDir abc_artefacts) ''map.json'')"
proof -
  have o: "\<not> fstream_open (closed_map_world abc_face)
             (path_join (art_outDir abc_artefacts) ''map.json'')"
    by (simp add: closed_map_world_def)
  show ?thesis
    using outputs_of_a_run [OF main_closed_map] main_closed_map pipeline_closed_map o
    by simp
qed

section \<open>The glyph array\<close>

lemma nums_of_append [simp]: "nums_of (ts @ us) = nums_of ts @ nums_of us"
  by (induction ts rule: nums_of.induct) auto

lemma encode_glyphs_snoc:
  "encode_glyphs rs (table @ [p]) = encode_glyph rs (snd p) (encode_glyphs rs table)"
  by (simp add: encode_glyphs_def)

lemma encode_glyphs_nextJsonId: "nextJsonId (encode_glyphs rs table) = length table"
proof (induction table rule: rev_induct)
  case Nil
  then show ?case by (simp add: encode_glyphs_def initial_glyph_enc_def)
next
  case (snoc p table)
  then show ?case by (simp add: encode_glyphs_snoc encode_glyph_def Let_def)
qed

lemma encode_glyphs_length:
  "length (nums_of (glyph_out (encode_glyphs rs table))) = 7 * length table"
proof (induction table rule: rev_induct)
  case Nil
  then show ?case by (simp add: encode_glyphs_def initial_glyph_enc_def)
next
  case (snoc p table)
  then show ?case by (simp add: encode_glyphs_snoc encode_glyph_def Let_def)
qed

lemma encode_glyphs_ids:
  assumes "distinct (map (\<lambda>p. glyphIndex (snd p)) table)"
    and "k \<in> set (map (\<lambda>p. glyphIndex (snd p)) table)"
  shows "glyphIdToJsonId (encode_glyphs rs table) k
       = Some (position k (map (\<lambda>p. glyphIndex (snd p)) table))"
  using assms
proof (induction table rule: rev_induct)
  case Nil
  then show ?case by simp
next
  case (snoc p table)
  let ?keys = "map (\<lambda>p. glyphIndex (snd p)) table"
  have d: "distinct ?keys" and n: "glyphIndex (snd p) \<notin> set ?keys"
    using snoc.prems(1) by simp_all
  show ?case
  proof (cases "k = glyphIndex (snd p)")
    case True
    then have "position k (?keys @ [glyphIndex (snd p)]) = length table"
      using n position_new [of k ?keys] by simp
    then show ?thesis
      using True by (simp add: encode_glyphs_snoc encode_glyph_def Let_def encode_glyphs_nextJsonId)
  next
    case False
    then have k: "k \<in> set ?keys" using snoc.prems(2) by auto
    then have "position k (?keys @ [glyphIndex (snd p)]) = position k ?keys"
      by (rule position_append)
    then show ?thesis
      using False snoc.IH [OF d k] by (simp add: encode_glyphs_snoc encode_glyph_def Let_def)
  qed
qed

lemma collected_glyph_keys:
  assumes "collected face gis st"
  shows "map (\<lambda>p. glyphIndex (snd p)) (glyphs st) = map fst (glyphs st)"
  using assms by (simp add: collected_def comp_def)

lemma distinct_length_u32:
  fixes ks :: "u32 list"
  assumes "distinct ks"
  shows "length ks \<le> 2 ^ 32"
proof -
  have "length ks = card (set ks)" using assms by (simp add: distinct_card)
  also have "\<dots> \<le> card (UNIV :: u32 set)" by (intro card_mono) simp_all
  also have "\<dots> = 2 ^ 32" by (simp add: card_word)
  finally show ?thesis .
qed

lemma collected_ids:
  assumes c: "collected face gis st" and k: "k \<in> set gis"
  shows "glyphIdToJsonId (encode_glyphs rs (glyphs st)) k = Some (position k (map fst (glyphs st)))"
    and "position k (map fst (glyphs st)) < length (glyphs st)"
    and "position k (map fst (glyphs st)) < 2 ^ 32"
proof -
  have keys: "map fst (glyphs st) = sorted_list_of_set (set gis)"
    using c by (rule collected_table_keys)
  have d: "distinct (map fst (glyphs st))" and m: "k \<in> set (map fst (glyphs st))"
    using k by (simp_all add: keys)
  show "glyphIdToJsonId (encode_glyphs rs (glyphs st)) k = Some (position k (map fst (glyphs st)))"
    using encode_glyphs_ids [of "glyphs st" k rs] d m
    unfolding collected_glyph_keys [OF c] by simp
  show lt: "position k (map fst (glyphs st)) < length (glyphs st)"
    using position_less [OF m] by simp
  have "length (map fst (glyphs st)) \<le> 2 ^ 32" using d by (rule distinct_length_u32)
  then show "position k (map fst (glyphs st)) < 2 ^ 32" using lt by simp
qed

section \<open>The codepoint array\<close>

lemma for_ranges_bounds:
  assumes "for_ranges body ranges st = Some (Inr st')"
  shows "\<forall>r\<in>set ranges. snd r \<noteq> - 1"
  using assms
proof (induction ranges arbitrary: st)
  case Nil
  then show ?case by simp
next
  case (Cons r ranges)
  from Cons.prems obtain st1 where
    a: "for_cp body (fst r) (snd r) st = Some (Inr st1)" and
    b: "for_ranges body ranges st1 = Some (Inr st')"
    by (auto split: option.splits sum.splits)
  show ?case using for_cp_returns_bound [OF a] Cons.IH [OF b] by simp
qed

lemma for_ranges_eq_steps:
  assumes "\<forall>r\<in>set ranges. snd r \<noteq> - 1"
  shows "for_ranges body ranges st = Some (steps body (all_cps ranges) st)"
  using assms
proof (induction ranges arbitrary: st)
  case Nil
  then show ?case by (simp add: all_cps_def)
next
  case (Cons r ranges)
  have r: "for_cp body (fst r) (snd r) st = Some (steps body (cp_list (fst r) (snd r)) st)"
    using Cons.prems by (simp add: for_cp_steps)
  have all: "all_cps (r # ranges) = cp_list (fst r) (snd r) @ all_cps ranges"
    by (simp add: all_cps_def)
  show ?case
  proof (cases "steps body (cp_list (fst r) (snd r)) st")
    case (Inl e)
    then show ?thesis using r by (simp add: all steps_append)
  next
    case (Inr st1)
    then show ?thesis using r Cons.IH [of st1] Cons.prems by (simp add: all steps_append)
  qed
qed

lemma rows_Cons2: "rows 2 (Suc n) (a # b # ds) = [a, b] # rows 2 n ds"
  by simp

lemma encode_cps_decode:
  assumes "\<forall>cp\<in>set cps. json_id ids (char_index face cp) < 2 ^ 32"
  shows "\<exists>c ds. steps (encode_cp face ids) cps s = Inr c
          \<and> nums_of (cp_out c) = nums_of (cp_out s) @ ds
          \<and> length ds = 2 * length (filter (\<lambda>cp. char_index face cp \<noteq> 0) cps)
          \<and> decode_rows [uint (lastCp s), uint (lastGlyphJsonId s)]
               (rows 2 (length (filter (\<lambda>cp. char_index face cp \<noteq> 0) cps)) ds)
             = map (\<lambda>cp. [uint cp, int (json_id ids (char_index face cp))])
                 (filter (\<lambda>cp. char_index face cp \<noteq> 0) cps)"
  using assms
proof (induction cps arbitrary: s)
  case Nil
  then show ?case by simp
next
  case (Cons cp cps)
  let ?nz = "\<lambda>cp. char_index face cp \<noteq> 0"
  let ?row = "\<lambda>cp. [uint cp, int (json_id ids (char_index face cp))]"
  have bound: "\<forall>cp\<in>set cps. json_id ids (char_index face cp) < 2 ^ 32"
    using Cons.prems by simp
  show ?case
  proof (cases "char_index face cp = 0")
    case True
    let ?s1 = "s\<lparr>enc_i := enc_i s + 1\<rparr>"
    have step: "encode_cp face ids cp s = Inr ?s1"
      using True by (simp add: encode_cp_def char_index_def)
    obtain c ds where ih:
      "steps (encode_cp face ids) cps ?s1 = Inr c"
      "nums_of (cp_out c) = nums_of (cp_out ?s1) @ ds"
      "length ds = 2 * length (filter ?nz cps)"
      "decode_rows [uint (lastCp ?s1), uint (lastGlyphJsonId ?s1)]
         (rows 2 (length (filter ?nz cps)) ds) = map ?row (filter ?nz cps)"
      using Cons.IH [OF bound, of ?s1] by blast
    show ?thesis
      using ih True step by (intro exI [of _ c] exI [of _ ds]) simp
  next
    case False
    let ?j = "json_id ids (char_index face cp)"
    let ?d1 = "uint cp - uint (lastCp s)"
    let ?d2 = "int ?j - uint (lastGlyphJsonId s)"
    let ?s1 = "\<lparr>enc_i = enc_i s + 1, lastCp = cp, lastGlyphJsonId = of_nat ?j,
               cp_out = cp_out s @ (if enc_i s \<noteq> 0 then [Str '',''] else []) @
                 [Num ?d1, Str '','', Num ?d2]\<rparr>"
    have step: "encode_cp face ids cp s = Inr ?s1"
      using False by (simp add: encode_cp_def char_index_def json_id_def Let_def)
    have j: "?j < 2 ^ 32" using Cons.prems by simp
    have uj: "uint (of_nat ?j :: u32) = int ?j"
      using j by (simp add: uint_nat unat_of_nat take_bit_nat_eq_self)
    obtain c ds where ih:
      "steps (encode_cp face ids) cps ?s1 = Inr c"
      "nums_of (cp_out c) = nums_of (cp_out ?s1) @ ds"
      "length ds = 2 * length (filter ?nz cps)"
      "decode_rows [uint (lastCp ?s1), uint (lastGlyphJsonId ?s1)]
         (rows 2 (length (filter ?nz cps)) ds) = map ?row (filter ?nz cps)"
      using Cons.IH [OF bound, of ?s1] by blast
    have n1: "nums_of (cp_out ?s1) = nums_of (cp_out s) @ [?d1, ?d2]" by simp
    show ?thesis
    proof (intro exI [of _ c] exI [of _ "?d1 # ?d2 # ds"] conjI)
      show "steps (encode_cp face ids) (cp # cps) s = Inr c" using step ih(1) by simp
      show "nums_of (cp_out c) = nums_of (cp_out s) @ ?d1 # ?d2 # ds"
        using ih(2) n1 by simp
      show "length (?d1 # ?d2 # ds) = 2 * length (filter ?nz (cp # cps))"
        using ih(3) False by simp
      show "decode_rows [uint (lastCp s), uint (lastGlyphJsonId s)]
              (rows 2 (length (filter ?nz (cp # cps))) (?d1 # ?d2 # ds))
            = map ?row (filter ?nz (cp # cps))"
        using ih(4) False uj by simp
    qed
  qed
qed

lemma encode_codepoints_decode:
  assumes "\<forall>r\<in>set ranges. snd r \<noteq> - 1"
    and "\<forall>cp\<in>set (all_cps ranges). json_id ids (char_index face cp) < 2 ^ 32"
  shows "\<exists>c. encode_codepoints face ids ranges = Some (Inr c)
          \<and> decode 2 (nums_of (cp_out c))
             = map (\<lambda>cp. [uint cp, int (json_id ids (char_index face cp))])
                 (filter (\<lambda>cp. char_index face cp \<noteq> 0) (all_cps ranges))"
proof -
  let ?nz = "\<lambda>cp. char_index face cp \<noteq> 0"
  obtain c ds where e:
    "steps (encode_cp face ids) (all_cps ranges) initial_cp_enc = Inr c"
    "nums_of (cp_out c) = nums_of (cp_out initial_cp_enc) @ ds"
    "length ds = 2 * length (filter ?nz (all_cps ranges))"
    "decode_rows [uint (lastCp initial_cp_enc), uint (lastGlyphJsonId initial_cp_enc)]
       (rows 2 (length (filter ?nz (all_cps ranges))) ds)
     = map (\<lambda>cp. [uint cp, int (json_id ids (char_index face cp))]) (filter ?nz (all_cps ranges))"
    using encode_cps_decode [OF assms(2), of initial_cp_enc] by blast
  have n: "nums_of (cp_out c) = ds" using e(2) by (simp add: initial_cp_enc_def)
  have "encode_codepoints face ids ranges = Some (Inr c)"
    unfolding encode_codepoints_def by (simp add: for_ranges_eq_steps [OF assms(1)] e(1))
  moreover have "length ds div 2 = length (filter ?nz (all_cps ranges))"
    using e(3) by simp
  then have "decode 2 ds
      = map (\<lambda>cp. [uint cp, int (json_id ids (char_index face cp))]) (filter ?nz (all_cps ranges))"
    using e(4) by (simp add: decode_def split_rows_def initial_cp_enc_def numeral_2_eq_2)
  ultimately show ?thesis using n by simp
qed

section \<open>The entries of the glyph array\<close>

lemma rows_Cons7:
  "rows 7 (Suc n) (d1 # d2 # d3 # d4 # d5 # d6 # d7 # ds)
     = [d1, d2, d3, d4, d5, d6, d7] # rows 7 n ds"
  by (simp add: eval_nat_numeral)

lemma encode_glyph_nums:
  "nums_of (glyph_out (encode_glyph rs g s)) = nums_of (glyph_out s) @
     [uint (width g) - uint (width (prevGlyph s)),
      uint (height g) - uint (height (prevGlyph s)),
      sint (leftBearing g) - sint (leftBearing (prevGlyph s)),
      sint (topBearing g) - sint (topBearing (prevGlyph s)),
      shr6 (advance g - advance (prevGlyph s)),
      (case rectIndex g of None \<Rightarrow> 0 | Some ri \<Rightarrow> rect_x (rs ! ri)) - prevRectX s,
      (case rectIndex g of None \<Rightarrow> 0 | Some ri \<Rightarrow> rect_y (rs ! ri)) - prevRectY s]"
  by (simp add: encode_glyph_def Let_def)

lemma encode_glyph_prev:
  "prevGlyph (encode_glyph rs g s) = g"
  "prevRectX (encode_glyph rs g s) = (case rectIndex g of None \<Rightarrow> 0 | Some ri \<Rightarrow> rect_x (rs ! ri))"
  "prevRectY (encode_glyph rs g s) = (case rectIndex g of None \<Rightarrow> 0 | Some ri \<Rightarrow> rect_y (rs ! ri))"
  by (simp_all add: encode_glyph_def Let_def)

lemma foldl_encode_glyph_decode:
  "\<exists>ds. nums_of (glyph_out (foldl (\<lambda>s p. encode_glyph rs (snd p) s) s table))
          = nums_of (glyph_out s) @ ds
      \<and> length ds = 7 * length table
      \<and> decode_rows
           [uint (width (prevGlyph s)), uint (height (prevGlyph s)),
            sint (leftBearing (prevGlyph s)), sint (topBearing (prevGlyph s)), acc,
            prevRectX s, prevRectY s]
           (rows 7 (length table) ds)
         = map2 (\<lambda>p adv. glyph_entry rs (snd p) adv) table
             (advance_sums acc (advance (prevGlyph s)) (map (\<lambda>p. advance (snd p)) table))"
proof (induction table arbitrary: s acc)
  case Nil
  then show ?case by simp
next
  case (Cons p table)
  let ?g = "snd p"
  let ?s1 = "encode_glyph rs ?g s"
  let ?acc1 = "acc + shr6 (advance ?g - advance (prevGlyph s))"
  let ?x = "case rectIndex ?g of None \<Rightarrow> 0 | Some ri \<Rightarrow> rect_x (rs ! ri)"
  let ?y = "case rectIndex ?g of None \<Rightarrow> 0 | Some ri \<Rightarrow> rect_y (rs ! ri)"
  let ?d = "[uint (width ?g) - uint (width (prevGlyph s)),
      uint (height ?g) - uint (height (prevGlyph s)),
      sint (leftBearing ?g) - sint (leftBearing (prevGlyph s)),
      sint (topBearing ?g) - sint (topBearing (prevGlyph s)),
      shr6 (advance ?g - advance (prevGlyph s)),
      ?x - prevRectX s, ?y - prevRectY s]"
  obtain ds where ih:
    "nums_of (glyph_out (foldl (\<lambda>s p. encode_glyph rs (snd p) s) ?s1 table))
       = nums_of (glyph_out ?s1) @ ds"
    "length ds = 7 * length table"
    "decode_rows
       [uint (width (prevGlyph ?s1)), uint (height (prevGlyph ?s1)),
        sint (leftBearing (prevGlyph ?s1)), sint (topBearing (prevGlyph ?s1)), ?acc1,
        prevRectX ?s1, prevRectY ?s1]
       (rows 7 (length table) ds)
     = map2 (\<lambda>p adv. glyph_entry rs (snd p) adv) table
         (advance_sums ?acc1 (advance (prevGlyph ?s1)) (map (\<lambda>p. advance (snd p)) table))"
    using Cons.IH [of ?s1 ?acc1] by blast
  have ih3: "decode_rows
       [uint (width ?g), uint (height ?g), sint (leftBearing ?g), sint (topBearing ?g), ?acc1,
        ?x, ?y]
       (rows 7 (length table) ds)
     = map2 (\<lambda>p adv. glyph_entry rs (snd p) adv) table
         (advance_sums ?acc1 (advance ?g) (map (\<lambda>p. advance (snd p)) table))"
    using ih(3) by (simp add: encode_glyph_prev)
  show ?case
  proof (intro exI [of _ "?d @ ds"] conjI)
    show "nums_of (glyph_out (foldl (\<lambda>s p. encode_glyph rs (snd p) s) s (p # table)))
            = nums_of (glyph_out s) @ ?d @ ds"
      using ih(1) by (simp add: encode_glyph_nums)
    show "length (?d @ ds) = 7 * length (p # table)" using ih(2) by simp
    show "decode_rows
           [uint (width (prevGlyph s)), uint (height (prevGlyph s)),
            sint (leftBearing (prevGlyph s)), sint (topBearing (prevGlyph s)), acc,
            prevRectX s, prevRectY s]
           (rows 7 (length (p # table)) (?d @ ds))
         = map2 (\<lambda>p adv. glyph_entry rs (snd p) adv) (p # table)
             (advance_sums acc (advance (prevGlyph s)) (map (\<lambda>p. advance (snd p)) (p # table)))"
      using ih3 by (simp add: rows_Cons7 glyph_entry_def)
  qed
qed

lemma encode_glyphs_decode:
  "decode 7 (nums_of (glyph_out (encode_glyphs rs table)))
     = map2 (\<lambda>p adv. glyph_entry rs (snd p) adv) table
         (advance_sums 0 0 (map (\<lambda>p. advance (snd p)) table))"
proof -
  obtain ds where e:
    "nums_of (glyph_out (foldl (\<lambda>s p. encode_glyph rs (snd p) s) initial_glyph_enc table))
       = nums_of (glyph_out initial_glyph_enc) @ ds"
    "length ds = 7 * length table"
    "decode_rows
       [uint (width (prevGlyph initial_glyph_enc)), uint (height (prevGlyph initial_glyph_enc)),
        sint (leftBearing (prevGlyph initial_glyph_enc)),
        sint (topBearing (prevGlyph initial_glyph_enc)), 0,
        prevRectX initial_glyph_enc, prevRectY initial_glyph_enc]
       (rows 7 (length table) ds)
     = map2 (\<lambda>p adv. glyph_entry rs (snd p) adv) table
         (advance_sums 0 (advance (prevGlyph initial_glyph_enc)) (map (\<lambda>p. advance (snd p)) table))"
    using foldl_encode_glyph_decode [of rs initial_glyph_enc table 0] by blast
  have n: "nums_of (glyph_out (encode_glyphs rs table)) = ds"
    using e(1) by (simp add: encode_glyphs_def initial_glyph_enc_def)
  have l: "length ds div 7 = length table" using e(2) by simp
  have z: "replicate 7 (0 :: int) = [0, 0, 0, 0, 0, 0, 0]" by (simp add: eval_nat_numeral)
  show ?thesis
    unfolding n decode_def split_rows_def l z
    using e(3) by (simp add: initial_glyph_enc_def zero_GlyphData_def)
qed

lemma length_advance_sums [simp]: "length (advance_sums acc prev as) = length as"
  by (induction as arbitrary: acc prev) auto

section \<open>Glyph index 0 and shared glyphs\<close>

lemma length_rows [simp]: "length (rows n k ds) = k"
  by (induction k arbitrary: ds) auto

lemma length_decode_rows [simp]: "length (decode_rows prev ds) = length ds"
  by (induction ds arbitrary: prev) auto

lemma length_decode: "length (decode n ds) = length ds div n"
  by (simp add: decode_def split_rows_def)

lemma glyph_entries:
  "length (decode 7 (nums_of (glyph_out (encode_glyphs rs table)))) = length table"
  by (simp add: length_decode encode_glyphs_length)

lemma one_entry:
  assumes "distinct (map f xs)" "y \<in> f ` set xs"
  shows "length (filter (\<lambda>x. f x = y) xs) = 1"
  using assms
proof (induction xs)
  case Nil
  then show ?case by simp
next
  case (Cons x xs)
  show ?case
  proof (cases "f x = y")
    case True
    then have "filter (\<lambda>x. f x = y) xs = []"
      using Cons.prems(1) by (auto simp: filter_empty_conv) (metis imageI)
    then show ?thesis using True by simp
  next
    case False
    then show ?thesis using Cons by auto
  qed
qed

lemma collected_codepoints:
  assumes co: "collect face ranges = Some (Inr st)"
  shows "\<exists>c. encode_codepoints face (glyphIdToJsonId (encode_glyphs rs (glyphs st))) ranges
              = Some (Inr c)
          \<and> decode 2 (nums_of (cp_out c))
             = map (\<lambda>cp. [uint cp, int (position (char_index face cp) (map fst (glyphs st)))])
                 (filter (\<lambda>cp. char_index face cp \<noteq> 0) (all_cps ranges))"
proof -
  let ?ids = "glyphIdToJsonId (encode_glyphs rs (glyphs st))"
  have c: "collected face (map (char_index face) (all_cps ranges)) st"
    using co by (rule collect_collected)
  have b: "\<forall>r\<in>set ranges. snd r \<noteq> - 1"
    using co unfolding collect_def by (rule for_ranges_bounds)
  have id: "json_id ?ids (char_index face cp) = position (char_index face cp) (map fst (glyphs st))"
    and lt: "json_id ?ids (char_index face cp) < 2 ^ 32"
    if "cp \<in> set (all_cps ranges)" for cp
  proof -
    have k: "char_index face cp \<in> set (map (char_index face) (all_cps ranges))"
      using that by simp
    show "json_id ?ids (char_index face cp) = position (char_index face cp) (map fst (glyphs st))"
      using collected_ids(1) [OF c k, of rs] by (simp add: json_id_def)
    then show "json_id ?ids (char_index face cp) < 2 ^ 32"
      using collected_ids(3) [OF c k] by simp
  qed
  obtain c where e: "encode_codepoints face ?ids ranges = Some (Inr c)"
    "decode 2 (nums_of (cp_out c))
      = map (\<lambda>cp. [uint cp, int (json_id ?ids (char_index face cp))])
          (filter (\<lambda>cp. char_index face cp \<noteq> 0) (all_cps ranges))"
    using encode_codepoints_decode [OF b, of ?ids face] lt by blast
  have "map (\<lambda>cp. [uint cp, int (json_id ?ids (char_index face cp))])
          (filter (\<lambda>cp. char_index face cp \<noteq> 0) (all_cps ranges))
      = map (\<lambda>cp. [uint cp, int (position (char_index face cp) (map fst (glyphs st)))])
          (filter (\<lambda>cp. char_index face cp \<noteq> 0) (all_cps ranges))"
    by (rule map_cong [OF refl]) (simp add: id)
  then show ?thesis using e by auto
qed

text \<open>
  C6: glyph index 0 is collected and emitted like any other glyph, and codepoints that
  resolve to it are left out of the codepoint array. After a successful collection the
  encoder's codepoint loop returns, and the glyph array decodes, entry by entry in table
  order, to the entries of the table's records: width, height, bearings, the advance
  column's running sum, and the rectangle's position (0 and 0 without a rectangle). For
  every requested codepoint, whatever its glyph index (0 included), the table holds the
  record of that glyph index, built from the loaded metrics in the same way for every
  index, and the glyph array's entry at the record's position is the entry of that
  record; and a requested codepoint occurs in the decoded codepoint array exactly when
  its glyph index is not 0.
\<close>

theorem glyph_zero_in_table_not_in_codepoints:
  assumes "collect face ranges = Some (Inr st)"
  shows "length (decode 7 (nums_of (glyph_out (encode_glyphs rs (glyphs st))))) = length (glyphs st)
       \<and> decode 7 (nums_of (glyph_out (encode_glyphs rs (glyphs st))))
           = map2 (\<lambda>p adv. glyph_entry rs (snd p) adv) (glyphs st)
               (advance_sums 0 0 (map (\<lambda>p. advance (snd p)) (glyphs st)))
       \<and> (\<exists>c. encode_codepoints face (glyphIdToJsonId (encode_glyphs rs (glyphs st))) ranges
                = Some (Inr c)
            \<and> (\<forall>cp\<in>set (all_cps ranges).
                 (char_index face cp,
                  glyph_record face (packed_order face (requested_glyphs face ranges))
                    (char_index face cp)) \<in> set (glyphs st)
                 \<and> position (char_index face cp) (map fst (glyphs st)) < length (glyphs st)
                 \<and> decode 7 (nums_of (glyph_out (encode_glyphs rs (glyphs st))))
                       ! position (char_index face cp) (map fst (glyphs st))
                     = glyph_entry rs
                         (glyph_record face (packed_order face (requested_glyphs face ranges))
                            (char_index face cp))
                         (advance_sums 0 0 (map (\<lambda>p. advance (snd p)) (glyphs st))
                            ! position (char_index face cp) (map fst (glyphs st)))
                 \<and> (uint cp \<in> set (map hd (decode 2 (nums_of (cp_out c))))
                      = (char_index face cp \<noteq> 0))))"
proof -
  let ?gis = "requested_glyphs face ranges"
  let ?order = "packed_order face ?gis"
  let ?keys = "map fst (glyphs st)"
  let ?sums = "advance_sums 0 0 (map (\<lambda>p. advance (snd p)) (glyphs st))"
  let ?rows = "decode 7 (nums_of (glyph_out (encode_glyphs rs (glyphs st))))"
  have c: "collected face ?gis st"
    using assms unfolding requested_glyphs_def by (rule collect_collected)
  have rows: "?rows = map2 (\<lambda>p adv. glyph_entry rs (snd p) adv) (glyphs st) ?sums"
    by (rule encode_glyphs_decode)
  obtain ce where e:
    "encode_codepoints face (glyphIdToJsonId (encode_glyphs rs (glyphs st))) ranges = Some (Inr ce)"
    "decode 2 (nums_of (cp_out ce))
       = map (\<lambda>cp. [uint cp, int (position (char_index face cp) (map fst (glyphs st)))])
           (filter (\<lambda>cp. char_index face cp \<noteq> 0) (all_cps ranges))"
    using collected_codepoints [OF assms, of rs] by blast
  have firsts: "map hd (decode 2 (nums_of (cp_out ce)))
              = map uint (filter (\<lambda>cp. char_index face cp \<noteq> 0) (all_cps ranges))"
    unfolding e(2) by (simp add: comp_def)
  have "(char_index face cp, glyph_record face ?order (char_index face cp)) \<in> set (glyphs st)
        \<and> position (char_index face cp) ?keys < length (glyphs st)
        \<and> ?rows ! position (char_index face cp) ?keys
            = glyph_entry rs (glyph_record face ?order (char_index face cp))
                (?sums ! position (char_index face cp) ?keys)
        \<and> (uint cp \<in> set (map hd (decode 2 (nums_of (cp_out ce)))) = (char_index face cp \<noteq> 0))"
    if cp: "cp \<in> set (all_cps ranges)" for cp
  proof (intro conjI)
    let ?k = "char_index face cp"
    let ?j = "position ?k ?keys"
    have k: "?k \<in> set ?gis" using cp by (simp add: requested_glyphs_def)
    then show "(?k, glyph_record face ?order ?k) \<in> set (glyphs st)"
      using c by (simp add: collected_def)
    have m: "?k \<in> set ?keys" using k collected_table_keys [OF c] by simp
    show lt: "?j < length (glyphs st)" using position_less [OF m] by simp
    have "fst (glyphs st ! ?j) = ?k" using nth_position [OF m] lt by (simp add: nth_map)
    moreover have "glyphs st ! ?j \<in> set (glyphs st)" using lt by simp
    ultimately have "(?k, snd (glyphs st ! ?j)) \<in> set (glyphs st)"
      by (metis prod.collapse)
    then have "snd (glyphs st ! ?j) = glyph_record face ?order ?k"
      using collected_entry [OF c] by blast
    then show "?rows ! ?j = glyph_entry rs (glyph_record face ?order ?k) (?sums ! ?j)"
      unfolding rows using lt by simp
    show "uint cp \<in> set (map hd (decode 2 (nums_of (cp_out ce)))) = (?k \<noteq> 0)"
      unfolding firsts using cp by (auto dest!: word_uint_eqI)
  qed
  then show ?thesis using e(1) glyph_entries rows by blast
qed

text \<open>
  C7 (as amended): when two different requested codepoints map to the same glyph index
  and that index is not 0, the table holds exactly one record for the glyph, the glyph
  array has one entry per record, and both codepoints occur in the decoded codepoint
  array with the same sequential id, the position of the glyph's record in the table.
\<close>

theorem shared_glyph_one_entry_same_id:
  assumes "collect face ranges = Some (Inr st)"
    and "a \<in> set (all_cps ranges)" and "b \<in> set (all_cps ranges)" and "a \<noteq> b"
    and "char_index face a = char_index face b" and "char_index face a \<noteq> 0"
  shows "length (filter (\<lambda>p. fst p = char_index face a) (glyphs st)) = 1
       \<and> length (decode 7 (nums_of (glyph_out (encode_glyphs rs (glyphs st))))) = length (glyphs st)
       \<and> position (char_index face a) (map fst (glyphs st)) < length (glyphs st)
       \<and> fst (glyphs st ! position (char_index face a) (map fst (glyphs st))) = char_index face a
       \<and> (\<exists>c. encode_codepoints face (glyphIdToJsonId (encode_glyphs rs (glyphs st))) ranges
                = Some (Inr c)
            \<and> [uint a, int (position (char_index face a) (map fst (glyphs st)))]
                 \<in> set (decode 2 (nums_of (cp_out c)))
            \<and> [uint b, int (position (char_index face a) (map fst (glyphs st)))]
                 \<in> set (decode 2 (nums_of (cp_out c))))"
proof -
  let ?g = "char_index face a"
  let ?keys = "map fst (glyphs st)"
  have c: "collected face (map (char_index face) (all_cps ranges)) st"
    using assms(1) by (rule collect_collected)
  have keys: "?keys = sorted_list_of_set (set (map (char_index face) (all_cps ranges)))"
    using c by (rule collected_table_keys)
  have d: "distinct ?keys" by (simp add: keys)
  have m: "?g \<in> set ?keys" using assms(2) by (simp add: keys)
  have one: "length (filter (\<lambda>p. fst p = ?g) (glyphs st)) = 1"
    using d m by (intro one_entry) simp_all
  have lt: "position ?g ?keys < length (glyphs st)" using position_less [OF m] by simp
  have nth: "fst (glyphs st ! position ?g ?keys) = ?g"
    using nth_position [OF m] lt by (simp add: nth_map)
  obtain ce where e:
    "encode_codepoints face (glyphIdToJsonId (encode_glyphs rs (glyphs st))) ranges = Some (Inr ce)"
    "decode 2 (nums_of (cp_out ce))
       = map (\<lambda>cp. [uint cp, int (position (char_index face cp) ?keys)])
           (filter (\<lambda>cp. char_index face cp \<noteq> 0) (all_cps ranges))"
    using collected_codepoints [OF assms(1), of rs] by blast
  have ina: "[uint a, int (position ?g ?keys)] \<in> set (decode 2 (nums_of (cp_out ce)))"
    unfolding e(2) using assms(2) assms(6) by (auto simp: image_iff)
  have inb: "[uint b, int (position ?g ?keys)] \<in> set (decode 2 (nums_of (cp_out ce)))"
    unfolding e(2) using assms(3) assms(5) assms(6) by (auto simp: image_iff)
  show ?thesis using one glyph_entries lt nth e(1) ina inb by blast
qed

section \<open>More example runs\<close>

lemma collect_at: "collect abc_face [(64, 67)] = Some (Inr at_state)"
  by code_simp

lemma collect_tofu: "collect abc_face [(68, 69)] = Some (Inr tofu_state)"
  by code_simp

lemma all_cps_examples:
  "all_cps [(64, 67)] = [64, 65, 66, 67]"
  "all_cps [(65, 67)] = [65, 66, 67]"
  "all_cps [(68, 69)] = [68, 69]"
  by code_simp+

lemma char_index_abc:
  "char_index abc_face 64 = 0" "char_index abc_face 65 = 3" "char_index abc_face 66 = 7"
  "char_index abc_face 67 = 7" "char_index abc_face 68 = 0" "char_index abc_face 69 = 0"
  by (simp_all add: char_index_def abc_face_def example_face_def)

lemma composite_at:
  "composite abc_face False (glyphs at_state)
     [\<lparr>rect_w = 18, rect_h = 18, rect_x = 0, rect_y = 0\<rparr>,
      \<lparr>rect_w = 18, rect_h = 18, rect_x = 18, rect_y = 0\<rparr>,
      \<lparr>rect_w = 18, rect_h = 18, rect_x = 36, rect_y = 0\<rparr>]
   = Inr [\<lparr>rect_w = 16, rect_h = 16, rect_x = 1, rect_y = 1\<rparr>,
          \<lparr>rect_w = 16, rect_h = 16, rect_x = 19, rect_y = 1\<rparr>,
          \<lparr>rect_w = 16, rect_h = 16, rect_x = 37, rect_y = 1\<rparr>]"
  by code_simp

lemma glyph_entries_at:
  "map2 (\<lambda>p adv. glyph_entry at_final (snd p) adv) (glyphs at_state)
     (advance_sums 0 0 (map (\<lambda>p. advance (snd p)) (glyphs at_state)))
   = [[16, 16, 1, 16, 17, 1, 1], [16, 16, 1, 16, 17, 19, 1], [16, 16, 1, 16, 17, 37, 1]]"
  by code_simp

theorem glyph_zero_in_table_not_in_codepoints_witness:
  "collect abc_face [(64, 67)] = Some (Inr at_state)
   \<and> pack_stage row_pack at_state =
       Some (Inr ([\<lparr>rect_w = 18, rect_h = 18, rect_x = 0, rect_y = 0\<rparr>,
                   \<lparr>rect_w = 18, rect_h = 18, rect_x = 18, rect_y = 0\<rparr>,
                   \<lparr>rect_w = 18, rect_h = 18, rect_x = 36, rect_y = 0\<rparr>], 54, 18))
   \<and> composite abc_face False (glyphs at_state)
        [\<lparr>rect_w = 18, rect_h = 18, rect_x = 0, rect_y = 0\<rparr>,
         \<lparr>rect_w = 18, rect_h = 18, rect_x = 18, rect_y = 0\<rparr>,
         \<lparr>rect_w = 18, rect_h = 18, rect_x = 36, rect_y = 0\<rparr>] = Inr at_final
   \<and> char_index abc_face 64 = 0
   \<and> (0, glyph_record abc_face (packed_order abc_face (requested_glyphs abc_face [(64, 67)])) 0)
        \<in> set (glyphs at_state)
   \<and> position (0 :: u32) (map fst (glyphs at_state)) = 0
   \<and> decode 7 (nums_of (glyph_out (encode_glyphs at_final (glyphs at_state))))
       = [[16, 16, 1, 16, 17, 1, 1], [16, 16, 1, 16, 17, 19, 1], [16, 16, 1, 16, 17, 37, 1]]
   \<and> (\<exists>c. encode_codepoints abc_face (glyphIdToJsonId (encode_glyphs at_final (glyphs at_state)))
              [(64, 67)] = Some (Inr c)
          \<and> uint (64 :: u32) \<notin> set (map hd (decode 2 (nums_of (cp_out c))))
          \<and> uint (65 :: u32) \<in> set (map hd (decode 2 (nums_of (cp_out c)))))"
proof -
  have p: "pack_stage row_pack at_state =
       Some (Inr ([\<lparr>rect_w = 18, rect_h = 18, rect_x = 0, rect_y = 0\<rparr>,
                   \<lparr>rect_w = 18, rect_h = 18, rect_x = 18, rect_y = 0\<rparr>,
                   \<lparr>rect_w = 18, rect_h = 18, rect_x = 36, rect_y = 0\<rparr>], 54, 18))"
    by code_simp
  have f: "composite abc_face False (glyphs at_state)
        [\<lparr>rect_w = 18, rect_h = 18, rect_x = 0, rect_y = 0\<rparr>,
         \<lparr>rect_w = 18, rect_h = 18, rect_x = 18, rect_y = 0\<rparr>,
         \<lparr>rect_w = 18, rect_h = 18, rect_x = 36, rect_y = 0\<rparr>] = Inr at_final"
    unfolding at_final_def by (rule composite_at)
  have z: "position (0 :: u32) (map fst (glyphs at_state)) = 0"
    by (simp add: at_state_def position_def)
  have t: "decode 7 (nums_of (glyph_out (encode_glyphs at_final (glyphs at_state))))
       = [[16, 16, 1, 16, 17, 1, 1], [16, 16, 1, 16, 17, 19, 1], [16, 16, 1, 16, 17, 37, 1]]
   \<and> (\<exists>c. encode_codepoints abc_face (glyphIdToJsonId (encode_glyphs at_final (glyphs at_state)))
              [(64, 67)] = Some (Inr c)
          \<and> (0, glyph_record abc_face (packed_order abc_face (requested_glyphs abc_face [(64, 67)])) 0)
               \<in> set (glyphs at_state)
          \<and> uint (64 :: u32) \<notin> set (map hd (decode 2 (nums_of (cp_out c))))
          \<and> uint (65 :: u32) \<in> set (map hd (decode 2 (nums_of (cp_out c)))))"
    using glyph_zero_in_table_not_in_codepoints [OF collect_at, of at_final]
    by (auto simp: all_cps_examples char_index_abc glyph_entries_at)
  show ?thesis using collect_at p f z t char_index_abc(1) by blast
qed

theorem shared_glyph_one_entry_same_id_witness:
  "collect abc_face [(65, 67)] = Some (Inr abc_state)
   \<and> char_index abc_face 66 = 7 \<and> char_index abc_face 67 = 7
   \<and> map fst (glyphs abc_state) = [3, 7]
   \<and> length (filter (\<lambda>p. fst p = 7) (glyphs abc_state)) = 1
   \<and> (\<exists>c. encode_codepoints abc_face (glyphIdToJsonId (encode_glyphs [] (glyphs abc_state)))
              [(65, 67)] = Some (Inr c)
          \<and> [66, 1] \<in> set (decode 2 (nums_of (cp_out c)))
          \<and> [67, 1] \<in> set (decode 2 (nums_of (cp_out c))))"
proof -
  have k: "map fst (glyphs abc_state) = [3, 7]" by (simp add: abc_state_def)
  have p: "position (7 :: u32) [3, 7] = 1" by (simp add: position_def)
  have m: "(66 :: u32) \<in> set (all_cps [(65, 67)])" "(67 :: u32) \<in> set (all_cps [(65, 67)])"
    by (simp_all add: all_cps_examples)
  have "length (filter (\<lambda>p. fst p = char_index abc_face 66) (glyphs abc_state)) = 1
       \<and> (\<exists>c. encode_codepoints abc_face (glyphIdToJsonId (encode_glyphs [] (glyphs abc_state)))
                [(65, 67)] = Some (Inr c)
            \<and> [uint (66 :: u32), int (position (char_index abc_face 66) (map fst (glyphs abc_state)))]
                 \<in> set (decode 2 (nums_of (cp_out c)))
            \<and> [uint (67 :: u32), int (position (char_index abc_face 66) (map fst (glyphs abc_state)))]
                 \<in> set (decode 2 (nums_of (cp_out c))))"
    using shared_glyph_one_entry_same_id [OF collect_abc m, of "[]"]
    by (simp add: char_index_abc)
  then show ?thesis using collect_abc k p by (simp add: char_index_abc)
qed

text \<open>
  C7 as stated fails when the shared glyph index is 0: the codepoints 68 and 69 of the
  font \<open>abc_face\<close> both resolve to glyph 0, and neither occurs in the codepoint array.
\<close>

theorem shared_missing_glyph_not_in_codepoints:
  "\<not> (\<forall>face ranges st rs a b.
        collect face ranges = Some (Inr st) \<longrightarrow>
        a \<in> set (all_cps ranges) \<longrightarrow> b \<in> set (all_cps ranges) \<longrightarrow> a \<noteq> b \<longrightarrow>
        char_index face a = char_index face b \<longrightarrow>
        (\<exists>c. encode_codepoints face (glyphIdToJsonId (encode_glyphs rs (glyphs st))) ranges
                = Some (Inr c)
            \<and> uint a \<in> set (map hd (decode 2 (nums_of (cp_out c))))
            \<and> uint b \<in> set (map hd (decode 2 (nums_of (cp_out c))))))"
proof
  assume "\<forall>face ranges st rs a b.
        collect face ranges = Some (Inr st) \<longrightarrow>
        a \<in> set (all_cps ranges) \<longrightarrow> b \<in> set (all_cps ranges) \<longrightarrow> a \<noteq> b \<longrightarrow>
        char_index face a = char_index face b \<longrightarrow>
        (\<exists>c. encode_codepoints face (glyphIdToJsonId (encode_glyphs rs (glyphs st))) ranges
                = Some (Inr c)
            \<and> uint a \<in> set (map hd (decode 2 (nums_of (cp_out c))))
            \<and> uint b \<in> set (map hd (decode 2 (nums_of (cp_out c)))))"
  then have "\<exists>c. encode_codepoints abc_face (glyphIdToJsonId (encode_glyphs [] (glyphs tofu_state)))
                [(68, 69)] = Some (Inr c)
            \<and> uint (68 :: u32) \<in> set (map hd (decode 2 (nums_of (cp_out c))))"
    using collect_tofu by (fastforce simp: all_cps_examples char_index_abc)
  moreover have "\<exists>c. encode_codepoints abc_face (glyphIdToJsonId (encode_glyphs [] (glyphs tofu_state)))
                [(68, 69)] = Some (Inr c)
            \<and> decode 2 (nums_of (cp_out c)) = []"
    using collected_codepoints [OF collect_tofu, of "[]"]
    by (simp add: all_cps_examples char_index_abc)
  ultimately show False by auto
qed

section \<open>The sidecar of two runs\<close>

text \<open>
  C5 (a defect of the code): the codepoint array can start with a separator. The counter
  \<^verbatim>\<open>i\<close> that decides whether a comma is written counts every codepoint visited, also those
  skipped for resolving to glyph 0; in the run \<^verbatim>\<open>--range 64 67\<close> on the font \<open>abc_face\<close> the
  first codepoint is skipped, and the sidecar reads \<^verbatim>\<open>"codepoints":[,65,1,...\<close>.
\<close>

theorem codepoints_start_with_separator:
  "main (example_world abc_face) [''--font'', ''f.ttf'', ''--out'', ''o'', ''--range'', ''64'', ''67'']
     = Some \<lparr>ending = Exit 0, diagnostic = None,
             files = [(''o/atlas.png'', PNG_image 54 18),
                      (''o/map.json'', Text (''{\"version\":1,\"glyphs\":['' @
                         ''16,16,1,16,17,1,1,0,0,0,0,0,18,0,0,0,0,0,0,18,0'' @
                         ''],\"codepoints\":['' @ '',65,1,1,1,1,0'' @
                         ''],\"metrics\":{\"ascender\":15,\"descender\":-4,\"height\":19}}''))]\<rparr>"
  by code_simp



end
